theory Spec2Isabelle
  imports Main
begin

section \<open>The content script as a state machine\<close>

text \<open>
  The content script is one JavaScript file whose functions share global variables and
  run on a single event loop. It is embedded as a record of those globals and a step
  function: each event is one run-to-completion task of the event loop (a timer firing, a
  window message, the toggle message, a scan), together with the microtasks that task
  queues. A function that suspends at an \<open>await\<close> is split at that point: the part before
  runs in the event that calls it, the part after in the event that resumes it.

  What the script reads from its environment is part of the state: the wall clock
  (\<open>Date.now()\<close>, in milliseconds, advanced by \<open>Tick\<close>), whether the extension context is
  still valid (\<open>chrome.runtime?.id\<close>), the stored cache object, and the page's username
  elements. A username element is represented by what the script's DOM queries return on
  it, and by the three things the script changes on it: its \<open>data-flag-added\<close> marker, the
  flag images inside it and the loading placeholders inside it. Username elements are
  taken to be disjoint (none nested in another) and the page is taken not to remove
  them or the script's insertions by itself.
\<close>

subsection \<open>Data\<close>

text \<open>The values the script writes to \<open>dataset.flagAdded\<close>; an absent attribute is \<open>None\<close>.\<close>

datatype flag_added = Processing | Waiting | FlagTrue | Failed

text \<open>
  \<open>processUsernames\<close> visits the \<open>[data-testid="User-Name"]\<close> elements inside articles
  first, then the \<open>[data-testid="UserName"]\<close> profile headers.
\<close>

datatype node_kind = ArticleUserName | ProfileHeader

record node =
  kind :: node_kind
  extracted :: "string option"     \<comment> \<open>result of \<open>extractUsername(element)\<close>\<close>
  has_container :: bool            \<comment> \<open>\<open>userNameContainer\<close> is not null\<close>
  shimmer_ok :: bool               \<comment> \<open>an insertion of the placeholder does not throw\<close>
  link_found :: bool               \<comment> \<open>the four-stage search for \<open>usernameLink\<close> finds a link\<close>
  insert_ok :: bool                \<comment> \<open>one of the insertion attempts for the flag succeeds\<close>
  flag_inside :: bool              \<comment> \<open>the insertion point lies inside the username element\<close>
  flagAdded :: "flag_added option" \<comment> \<open>\<open>dataset.flagAdded\<close>\<close>
  flags :: nat                     \<comment> \<open>number of \<open>[data-twitter-flag]\<close> descendants\<close>
  shimmers :: "nat list"           \<comment> \<open>attached placeholders, named by the call that made them\<close>

text \<open>One entry of the stored cache object.\<close>

record cache_data =
  location :: "string option"
  expiry :: int
  cachedAt :: int

datatype 'a promise = Pending | Fulfilled 'a | Rejected

text \<open>
  One call of \<open>makeLocationRequest\<close>: its message listener, its 10 second timer and the
  promise it returned. \<open>req_id\<close> stands for the \<open>requestId\<close> (and names the annotator call
  whose \<open>resolve\<close> was queued), \<open>started\<close> is the dispatch time.
\<close>

record bridge_req =
  req_id :: nat
  req_name :: string
  started :: int
  listening :: bool
  timer_armed :: bool
  promise :: "string option promise"

text \<open>\<open>saveCache.timeout\<close>: unset, a pending 5 second timer, or the timer's callback awaiting the write.\<close>

datatype flush_timer = NoTimeout | TimeoutArmed | Saving

text \<open>
  A suspended call of \<open>addFlagToUsername\<close>: in the 500 ms sleep of the duplicate branch, or
  at \<open>await getUserLocation\<close> (element, screen name, \<open>shimmerInserted\<close>).
\<close>

datatype call = Sleeping nat | Awaiting nat string bool

record state =
  clock :: int
  runtime_ok :: bool
  storage :: "string \<rightharpoonup> cache_data"
  load_pending :: bool
  locationCache :: "string \<rightharpoonup> string option"
  flush :: flush_timer
  requestQueue :: "(nat \<times> string) list"
  isProcessingQueue :: bool
  drain_wake :: "int option"
  lastRequestTime :: int
  activeRequests :: int
  rateLimitResetTime :: int
  bridge :: "bridge_req list"
  extensionEnabled :: bool
  processingUsernames :: "string set"
  document :: "nat \<rightharpoonup> node"
  scan_order :: "nat list"
  stray_flags :: nat
  calls :: "nat \<rightharpoonup> call"
  next_call :: nat
  microtasks :: "(nat \<times> string option) list"

definition CACHE_EXPIRY_DAYS :: int where
  "CACHE_EXPIRY_DAYS = 30"

definition MIN_REQUEST_INTERVAL :: int where
  "MIN_REQUEST_INTERVAL = 500"

definition MAX_CONCURRENT_REQUESTS :: int where
  "MAX_CONCURRENT_REQUESTS = 5"

text \<open>JavaScript truthiness of a value that is a string or null, and \<open>v || null\<close>.\<close>

definition falsy :: "string option \<Rightarrow> bool" where
  "falsy v = (case v of None \<Rightarrow> True | Some t \<Rightarrow> t = [])"

definition or_null :: "string option \<Rightarrow> string option" where
  "or_null v = (if falsy v then None else v)"

subsection \<open>Location cache\<close>

text \<open>
  \<open>loadCache\<close>, from the point where \<open>chrome.storage.local.get\<close> has answered. The script
  calls it once, when it starts; the test of \<open>chrome.runtime?.id\<close> comes before the \<open>await\<close>,
  in the starting state, and nothing is tested again when the answer arrives. A read that is
  rejected loads nothing: it is an answer that never comes.
\<close>

definition loadCache :: "state \<Rightarrow> state" where
  "loadCache s =
     s\<lparr>locationCache := (\<lambda>username.
          case storage s username of
            None \<Rightarrow> locationCache s username
          | Some d \<Rightarrow>
              if expiry d \<noteq> 0 \<and> expiry d > clock s \<and> location d \<noteq> None
              then Some (location d)
              else locationCache s username)\<rparr>"

definition saveCache :: "state \<Rightarrow> state" where
  "saveCache s =
     (if \<not> runtime_ok s then s
      else s\<lparr>storage := (\<lambda>username.
             case locationCache s username of
               None \<Rightarrow> None
             | Some loc \<Rightarrow>
                 Some \<lparr>location = loc,
                       expiry = clock s + CACHE_EXPIRY_DAYS * 24 * 60 * 60 * 1000,
                       cachedAt = clock s\<rparr>)\<rparr>)"

definition saveCacheEntry :: "string \<Rightarrow> string option \<Rightarrow> state \<Rightarrow> state" where
  "saveCacheEntry username loc s =
     (if \<not> runtime_ok s then s
      else s\<lparr>locationCache := (locationCache s)(username \<mapsto> loc),
             flush := (if flush s = NoTimeout then TimeoutArmed else flush s)\<rparr>)"

subsection \<open>Request scheduler\<close>

text \<open>
  The synchronous part of \<open>makeLocationRequest\<close>: the listener is registered, the request
  is posted and the 10 second timer is armed.
\<close>

definition makeLocationRequest :: "nat \<Rightarrow> string \<Rightarrow> state \<Rightarrow> state" where
  "makeLocationRequest cid screenName s =
     s\<lparr>bridge := bridge s @
          [\<lparr>req_id = cid, req_name = screenName, started = clock s,
            listening = True, timer_armed = True, promise = Pending\<rparr>]\<rparr>"

text \<open>
  \<open>requestQueue.shift()\<close>, \<open>activeRequests++\<close>, \<open>lastRequestTime = Date.now()\<close> and the call of
  \<open>makeLocationRequest\<close>. On an empty queue the destructuring of \<open>undefined\<close> throws, which
  ends the drain with \<open>isProcessingQueue\<close> still set.
\<close>

definition dispatch :: "state \<Rightarrow> state" where
  "dispatch s =
     (case requestQueue s of
        [] \<Rightarrow> s
      | (cid, screenName) # rest \<Rightarrow>
          makeLocationRequest cid screenName
            (s\<lparr>requestQueue := rest,
               activeRequests := activeRequests s + 1,
               lastRequestTime := clock s\<rparr>))"

text \<open>
  The \<open>while\<close> loop of \<open>processRequestQueue\<close>. Where it awaits the spacing timer it stops
  with \<open>drain_wake\<close> set to the time the timer is due; \<open>drain_resume\<close> continues from there.
\<close>

function drain_loop :: "state \<Rightarrow> state" where
  "drain_loop s =
     (if requestQueue s \<noteq> [] \<and> activeRequests s < MAX_CONCURRENT_REQUESTS then
        (let timeSinceLastRequest = clock s - lastRequestTime s in
         if timeSinceLastRequest < MIN_REQUEST_INTERVAL
         then s\<lparr>drain_wake := Some (clock s + (MIN_REQUEST_INTERVAL - timeSinceLastRequest))\<rparr>
         else drain_loop (dispatch s))
      else s\<lparr>isProcessingQueue := False\<rparr>)"
  by pat_completeness auto
termination
  by (relation "measure (\<lambda>s. length (requestQueue s))")
     (auto simp: dispatch_def makeLocationRequest_def split: list.splits)

definition drain_resume :: "state \<Rightarrow> state" where
  "drain_resume s =
     (case requestQueue s of
        [] \<Rightarrow> s\<lparr>drain_wake := None\<rparr>
      | _ # _ \<Rightarrow> drain_loop (dispatch (s\<lparr>drain_wake := None\<rparr>)))"

definition processRequestQueue :: "state \<Rightarrow> state" where
  "processRequestQueue s =
     (if isProcessingQueue s \<or> requestQueue s = [] then s
      else if rateLimitResetTime s > 0 \<and> clock s div 1000 < rateLimitResetTime s then s
      else drain_loop
             (s\<lparr>rateLimitResetTime := (if rateLimitResetTime s > 0 then 0 else rateLimitResetTime s),
                isProcessingQueue := True\<rparr>))"

subsection \<open>Flag annotator\<close>

definition getUserLocation :: "nat \<Rightarrow> string \<Rightarrow> state \<Rightarrow> state" where
  "getUserLocation cid screenName s =
     (case locationCache s screenName of
        Some (Some cached) \<Rightarrow> s\<lparr>microtasks := microtasks s @ [(cid, Some cached)]\<rparr>
      | Some None \<Rightarrow>
          processRequestQueue
            (s\<lparr>locationCache := (locationCache s)(screenName := None),
               requestQueue := requestQueue s @ [(cid, screenName)]\<rparr>)
      | None \<Rightarrow>
          processRequestQueue (s\<lparr>requestQueue := requestQueue s @ [(cid, screenName)]\<rparr>))"

text \<open>\<open>addFlagToUsername\<close> up to its first suspension.\<close>

definition addFlagToUsername :: "nat \<Rightarrow> string \<Rightarrow> state \<Rightarrow> state" where
  "addFlagToUsername nid screenName s =
     (case document s nid of
        None \<Rightarrow> s
      | Some n \<Rightarrow>
          if flagAdded n = Some FlagTrue then s
          else if screenName \<in> processingUsernames s then
            s\<lparr>calls := (calls s)(next_call s \<mapsto> Sleeping nid), next_call := next_call s + 1\<rparr>
          else
            (let cid = next_call s;
                 shimmerInserted = (has_container n \<and> shimmer_ok n);
                 n' = n\<lparr>flagAdded := Some Processing,
                        shimmers := (if shimmerInserted then shimmers n @ [cid] else shimmers n)\<rparr>
             in getUserLocation cid screenName
                  (s\<lparr>document := (document s)(nid \<mapsto> n'),
                     processingUsernames := insert screenName (processingUsernames s),
                     calls := (calls s)(cid \<mapsto> Awaiting nid screenName shimmerInserted),
                     next_call := cid + 1\<rparr>)))"

text \<open>The duplicate branch after its 500 ms sleep.\<close>

definition waiter_resume :: "nat \<Rightarrow> state \<Rightarrow> state" where
  "waiter_resume cid s =
     (case calls s cid of
        Some (Sleeping nid) \<Rightarrow>
          (let s' = s\<lparr>calls := (calls s)(cid := None)\<rparr> in
           case document s nid of
             None \<Rightarrow> s'
           | Some n \<Rightarrow>
               if flagAdded n = Some FlagTrue then s'
               else s'\<lparr>document := (document s)(nid \<mapsto> n\<lparr>flagAdded := Some Waiting\<rparr>)\<rparr>)
      | _ \<Rightarrow> s)"

text \<open>
  The body of the \<open>try\<close> block after the location has arrived and the placeholder is gone,
  on one element: the new element, and how many flags were inserted outside it.
  \<open>getCountryCode\<close> is in a file of the extension that is not part of the sources at hand;
  it is the parameter \<open>cc\<close>.
\<close>

definition place_flag :: "(string \<Rightarrow> string option) \<Rightarrow> string option \<Rightarrow> node \<Rightarrow> node \<times> nat" where
  "place_flag cc loc n =
     (case loc of
        None \<Rightarrow> (n\<lparr>flagAdded := Some Failed\<rparr>, 0)
      | Some l \<Rightarrow>
          if l = [] then (n\<lparr>flagAdded := Some Failed\<rparr>, 0)
          else if falsy (cc l) then (n\<lparr>flagAdded := Some Failed\<rparr>, 0)
          else if \<not> link_found n then (n\<lparr>flagAdded := Some Failed\<rparr>, 0)
          else if flags n > 0 then (n\<lparr>flagAdded := Some FlagTrue\<rparr>, 0)
          else if \<not> has_container n then (n\<lparr>flagAdded := Some Failed\<rparr>, 0)
          else if insert_ok n then
            (if flag_inside n
             then (n\<lparr>flags := flags n + 1, flagAdded := Some FlagTrue\<rparr>, 0)
             else (n\<lparr>flagAdded := Some FlagTrue\<rparr>, 1))
          else (n\<lparr>flagAdded := Some Failed\<rparr>, 0))"

text \<open>\<open>addFlagToUsername\<close> from \<open>await getUserLocation\<close> to its end, \<open>finally\<close> included.\<close>

definition addFlag_resume :: "(string \<Rightarrow> string option) \<Rightarrow> nat \<Rightarrow> string option \<Rightarrow> state \<Rightarrow> state" where
  "addFlag_resume cc cid loc s =
     (case calls s cid of
        Some (Awaiting nid screenName shimmerInserted) \<Rightarrow>
          (let s' = s\<lparr>calls := (calls s)(cid := None),
                      processingUsernames := processingUsernames s - {screenName}\<rparr> in
           case document s nid of
             None \<Rightarrow> s'
           | Some n \<Rightarrow>
               (let n1 = (if shimmerInserted \<and> cid \<in> set (shimmers n)
                          then n\<lparr>shimmers := removeAll cid (shimmers n)\<rparr> else n);
                    (n2, stray) = place_flag cc loc n1
                in s'\<lparr>document := (document s)(nid \<mapsto> n2),
                      stray_flags := stray_flags s + stray\<rparr>))
      | _ \<Rightarrow> s)"

subsection \<open>Bridge channel\<close>

definition upd_req :: "nat \<Rightarrow> (bridge_req \<Rightarrow> bridge_req) \<Rightarrow> state \<Rightarrow> state" where
  "upd_req rid f s = s\<lparr>bridge := map (\<lambda>r. if req_id r = rid then f r else r) (bridge s)\<rparr>"

text \<open>
  \<open>resolve(v)\<close> on the promise of request \<open>rid\<close>. On a settled promise it does nothing. On a
  pending one it fulfils it and the reactions run: \<open>.then\<close> resolves the promise the
  annotator call awaits, so that call continues, and \<open>.finally\<close> decrements
  \<open>activeRequests\<close> (and arms a 200 ms timer for \<open>processRequestQueue\<close>).
\<close>

definition resolve_req :: "(string \<Rightarrow> string option) \<Rightarrow> nat \<Rightarrow> string option \<Rightarrow> state \<Rightarrow> state" where
  "resolve_req cc rid v s =
     (case find (\<lambda>r. req_id r = rid) (bridge s) of
        None \<Rightarrow> s
      | Some r \<Rightarrow>
          if promise r = Pending then
            (let s1 = upd_req rid (\<lambda>r. r\<lparr>promise := Fulfilled v\<rparr>) s;
                 s2 = addFlag_resume cc rid v s1
             in s2\<lparr>activeRequests := activeRequests s2 - 1\<rparr>)
          else s)"

text \<open>The message listener of request \<open>rid\<close> on a \<open>__locationResponse\<close> that matches it.\<close>

definition handler :: "(string \<Rightarrow> string option) \<Rightarrow> nat \<Rightarrow> string option \<Rightarrow> bool \<Rightarrow> state \<Rightarrow> state" where
  "handler cc rid loc isRateLimited s =
     (case find (\<lambda>r. req_id r = rid) (bridge s) of
        None \<Rightarrow> s
      | Some r \<Rightarrow>
          if \<not> listening r then s
          else
            (let s1 = upd_req rid (\<lambda>r. r\<lparr>listening := False\<rparr>) s;
                 s2 = (if \<not> isRateLimited then saveCacheEntry (req_name r) (or_null loc) s1 else s1)
             in resolve_req cc rid (or_null loc) s2))"

text \<open>The callback of the 10 second timer of request \<open>rid\<close>.\<close>

definition request_timeout :: "(string \<Rightarrow> string option) \<Rightarrow> nat \<Rightarrow> state \<Rightarrow> state" where
  "request_timeout cc rid s =
     (case find (\<lambda>r. req_id r = rid) (bridge s) of
        None \<Rightarrow> s
      | Some r \<Rightarrow>
          if \<not> timer_armed r then s
          else resolve_req cc rid None
                 (upd_req rid (\<lambda>r. r\<lparr>listening := False, timer_armed := False\<rparr>) s))"

subsection \<open>Scanner and enable/disable controller\<close>

definition removeAllFlags :: "state \<Rightarrow> state" where
  "removeAllFlags s =
     s\<lparr>document := (\<lambda>nid. map_option (\<lambda>n. n\<lparr>flags := 0, shimmers := [], flagAdded := None\<rparr>)
                             (document s nid)),
       stray_flags := 0,
       locationCache := Map.empty,
       processingUsernames := {}\<rparr>"

definition visit :: "nat \<Rightarrow> state \<Rightarrow> state" where
  "visit nid s =
     (case document s nid of
        None \<Rightarrow> s
      | Some n \<Rightarrow>
          if flagAdded n \<noteq> None then s
          else (case extracted n of
                  None \<Rightarrow> s
                | Some screenName \<Rightarrow> addFlagToUsername nid screenName s))"

definition has_kind :: "state \<Rightarrow> node_kind \<Rightarrow> nat \<Rightarrow> bool" where
  "has_kind s k nid = (case document s nid of None \<Rightarrow> False | Some n \<Rightarrow> kind n = k)"

definition elements :: "state \<Rightarrow> nat list" where
  "elements s = filter (has_kind s ArticleUserName) (scan_order s) @
                filter (has_kind s ProfileHeader) (scan_order s)"

definition processUsernames :: "state \<Rightarrow> state" where
  "processUsernames s = (if \<not> extensionEnabled s then s else fold visit (elements s) s)"

text \<open>
  The calls that found their location in the cache continue in microtasks, after the
  scan that started them and before any other task.
\<close>

definition run_microtasks :: "(string \<Rightarrow> string option) \<Rightarrow> state \<Rightarrow> state" where
  "run_microtasks cc s =
     fold (\<lambda>(cid, v). addFlag_resume cc cid v) (microtasks s) (s\<lparr>microtasks := []\<rparr>)"

definition toggle :: "bool \<Rightarrow> state \<Rightarrow> state" where
  "toggle enabled s =
     (let s' = s\<lparr>extensionEnabled := enabled\<rparr> in
      if enabled then s' else removeAllFlags s')"

text \<open>The page adds a username element, not yet touched by the script, at a position of the document.\<close>

definition fresh :: "node \<Rightarrow> node" where
  "fresh n = n\<lparr>flagAdded := None, flags := 0, shimmers := []\<rparr>"

definition page_insert :: "nat \<Rightarrow> nat \<Rightarrow> node \<Rightarrow> state \<Rightarrow> state" where
  "page_insert pos nid n s =
     (if document s nid = None \<and> nid \<notin> set (scan_order s)
      then s\<lparr>document := (document s)(nid \<mapsto> fresh n),
             scan_order := take pos (scan_order s) @ nid # drop pos (scan_order s)\<rparr>
      else s)"

subsection \<open>Events\<close>

text \<open>
  Time passes in \<open>Tick\<close> events only, so the clock never runs backwards, and within one
  task every \<open>Date.now()\<close> reads the same value. The spacing sleep of the drain loop
  cannot end before the time it was set for (\<open>DrainWakes\<close> does nothing earlier). The other
  timers are not tracked: their events may come at any time, which covers every delay.
  A \<open>Response\<close> or \<open>Timeout\<close> for a request that is not registered does nothing.
\<close>

datatype event =
    Tick nat                           \<comment> \<open>time passes\<close>
  | ContextInvalidated                 \<comment> \<open>the host tears the extension context down\<close>
  | CacheLoaded                        \<comment> \<open>\<open>chrome.storage.local.get\<close> answers \<open>loadCache\<close>\<close>
  | FlushTimer                         \<comment> \<open>the 5 second timer of \<open>saveCacheEntry\<close> fires\<close>
  | FlushDone                          \<comment> \<open>\<open>await saveCache()\<close> returns in that callback\<close>
  | PageInsert nat nat node            \<comment> \<open>the page adds a username element\<close>
  | Scan                               \<comment> \<open>\<open>processUsernames\<close>, from the observer or a timer\<close>
  | Toggle bool                        \<comment> \<open>the \<open>extensionToggle\<close> message\<close>
  | WaiterWakes nat                    \<comment> \<open>the 500 ms sleep of a duplicate call ends\<close>
  | DrainTimer                         \<comment> \<open>a \<open>setTimeout(processRequestQueue, ...)\<close> fires\<close>
  | DrainWakes                         \<comment> \<open>the spacing sleep of the drain loop ends\<close>
  | Response nat "string option" bool  \<comment> \<open>a matching \<open>__locationResponse\<close>: location, isRateLimited\<close>
  | Timeout nat                        \<comment> \<open>the 10 second timer of a request fires\<close>
  | RateLimitInfo int                  \<comment> \<open>a \<open>__rateLimitInfo\<close> message with its \<open>resetTime\<close>\<close>

fun step :: "(string \<Rightarrow> string option) \<Rightarrow> event \<Rightarrow> state \<Rightarrow> state" where
  "step cc (Tick d) s = s\<lparr>clock := clock s + int d\<rparr>"
| "step cc ContextInvalidated s = s\<lparr>runtime_ok := False\<rparr>"
| "step cc CacheLoaded s =
     (if load_pending s then loadCache (s\<lparr>load_pending := False\<rparr>) else s)"
| "step cc FlushTimer s =
     (if flush s = TimeoutArmed then saveCache (s\<lparr>flush := Saving\<rparr>) else s)"
| "step cc FlushDone s = (if flush s = Saving then s\<lparr>flush := NoTimeout\<rparr> else s)"
| "step cc (PageInsert pos nid n) s = page_insert pos nid n s"
| "step cc Scan s = run_microtasks cc (processUsernames s)"
| "step cc (Toggle enabled) s = toggle enabled s"
| "step cc (WaiterWakes cid) s = waiter_resume cid s"
| "step cc DrainTimer s = processRequestQueue s"
| "step cc DrainWakes s =
     (case drain_wake s of
        None \<Rightarrow> s
      | Some due \<Rightarrow> if clock s < due then s else drain_resume s)"
| "step cc (Response rid loc isRateLimited) s = handler cc rid loc isRateLimited s"
| "step cc (Timeout rid) s = request_timeout cc rid s"
| "step cc (RateLimitInfo resetTime) s = s\<lparr>rateLimitResetTime := resetTime\<rparr>"

definition run :: "(string \<Rightarrow> string option) \<Rightarrow> event list \<Rightarrow> state \<Rightarrow> state" where
  "run cc es s = fold (step cc) es s"

text \<open>
  The state when \<open>init\<close> has read the enabled flag: nothing cached in memory yet, no request
  made, and the username elements of the page untouched.
\<close>

definition init :: "nat \<Rightarrow> (string \<rightharpoonup> cache_data) \<Rightarrow> bool \<Rightarrow> (nat \<times> node) list \<Rightarrow> state" where
  "init now stored enabled page =
     \<lparr>clock = int now, runtime_ok = True, storage = stored, load_pending = True,
      locationCache = Map.empty, flush = NoTimeout,
      requestQueue = [], isProcessingQueue = False, drain_wake = None,
      lastRequestTime = 0, activeRequests = 0, rateLimitResetTime = 0,
      bridge = [], extensionEnabled = enabled, processingUsernames = {},
      document = map_of (map (\<lambda>(nid, n). (nid, fresh n)) page),
      scan_order = remdups (map fst page),
      stray_flags = 0, calls = Map.empty, next_call = 0, microtasks = []\<rparr>"

subsection \<open>Observations\<close>

text \<open>
  A request of the bridge is in flight while its promise is pending. A resolution is
  outstanding from the moment \<open>getUserLocation\<close> queues it until its promise settles: it
  is in the queue, or in flight. \<open>spaced\<close> says that consecutive times are at least
  \<open>MIN_REQUEST_INTERVAL\<close> apart. \<open>awaiting_on\<close> lists the calls that are suspended at
  \<open>await getUserLocation\<close> on an element.
\<close>

definition pending :: "bridge_req \<Rightarrow> bool" where
  "pending r = (promise r = Pending)"

definition in_flight :: "state \<Rightarrow> bridge_req list" where
  "in_flight s = filter pending (bridge s)"

definition outstanding :: "state \<Rightarrow> (nat \<times> string) list" where
  "outstanding s = requestQueue s @ map (\<lambda>r. (req_id r, req_name r)) (filter pending (bridge s))"

fun spaced :: "int list \<Rightarrow> bool" where
  "spaced (x # y # zs) = (x + MIN_REQUEST_INTERVAL \<le> y \<and> spaced (y # zs))"
| "spaced _ = True"

definition awaiting_on :: "nat \<Rightarrow> state \<Rightarrow> nat list" where
  "awaiting_on nid s =
     filter (\<lambda>cid. case calls s cid of Some (Awaiting n u b) \<Rightarrow> n = nid | _ \<Rightarrow> False)
       [0..<next_call s]"

definition name_of :: "state \<Rightarrow> nat \<Rightarrow> string option" where
  "name_of s k = (case document s k of None \<Rightarrow> None | Some n \<Rightarrow> extracted n)"

subsection \<open>Invariants\<close>

text \<open>
  Request identifiers are distinct and below the call counter; the scheduler's counters
  agree with the bridge; a request listens exactly while its promise is pending, and its
  timer is armed at least that long.
\<close>

definition ids :: "state \<Rightarrow> nat list" where
  "ids s = map fst (requestQueue s) @ map req_id (bridge s) @ map fst (microtasks s)"

definition ids_inv :: "state \<Rightarrow> bool" where
  "ids_inv s \<longleftrightarrow> distinct (ids s) \<and> (\<forall>i\<in>set (ids s). i < next_call s)"

definition sched_inv :: "state \<Rightarrow> bool" where
  "sched_inv s \<longleftrightarrow>
     lastRequestTime s \<le> clock s \<and>
     (\<forall>r\<in>set (bridge s). started r \<le> lastRequestTime s) \<and>
     spaced (map started (bridge s)) \<and>
     activeRequests s = int (length (filter pending (bridge s))) \<and>
     activeRequests s \<le> MAX_CONCURRENT_REQUESTS \<and>
     (case drain_wake s of
        None \<Rightarrow> True
      | Some due \<Rightarrow> isProcessingQueue s \<and> lastRequestTime s + MIN_REQUEST_INTERVAL \<le> due \<and>
                    activeRequests s < MAX_CONCURRENT_REQUESTS)"

definition req_ok :: "bridge_req \<Rightarrow> bool" where
  "req_ok r \<longleftrightarrow> promise r \<noteq> Rejected \<and> (listening r \<longrightarrow> timer_armed r \<and> promise r = Pending) \<and>
     (promise r = Pending \<longrightarrow> listening r)"

definition bridge_inv :: "state \<Rightarrow> bool" where
  "bridge_inv s \<longleftrightarrow> (\<forall>r\<in>set (bridge s). req_ok r)"

definition inv1 :: "state \<Rightarrow> bool" where
  "inv1 s \<longleftrightarrow> ids_inv s \<and> sched_inv s \<and> bridge_inv s \<and> microtasks s = []"

text \<open>An element holds at most one flag and one placeholder, and none while it has no marker.\<close>

definition node_ok :: "node \<Rightarrow> bool" where
  "node_ok n \<longleftrightarrow> flags n \<le> 1 \<and> length (shimmers n) \<le> 1 \<and> (flagAdded n = None \<longrightarrow> shimmers n = [])"

definition doc_inv :: "state \<Rightarrow> bool" where
  "doc_inv s \<longleftrightarrow> (\<forall>nid n. document s nid = Some n \<longrightarrow> node_ok n)"

text \<open>
  Calls are numbered below the counter, every outstanding resolution belongs to a call
  that awaits it, and (as long as nothing resets the set) the awaiting calls have distinct
  screen names, all in \<open>processingUsernames\<close>.
\<close>

definition calls_bound :: "state \<Rightarrow> bool" where
  "calls_bound s \<longleftrightarrow> (\<forall>cid c. calls s cid = Some c \<longrightarrow> cid < next_call s)"

definition waits :: "state \<Rightarrow> bool" where
  "waits s \<longleftrightarrow> (\<forall>cid u. (cid, u) \<in> set (outstanding s) \<longrightarrow>
                  (\<exists>nid b. calls s cid = Some (Awaiting nid u b)))"

definition inv2 :: "state \<Rightarrow> bool" where
  "inv2 s \<longleftrightarrow> inv1 s \<and> calls_bound s \<and> waits s"


text \<open>
  An element is marked when its \<open>data-flag-added\<close> attribute is set.
  An element is stuck when it carries one of the markers \<open>M\<close>, is otherwise as \<open>n0\<close>, and
  no call awaits a location on it. \<open>requeued\<close> describes a scan that started from the reset
  state: nothing is cached, every marked element's name is in the set, and every name in
  the set has a resolution outstanding that was issued since.
\<close>

definition marked :: "nat \<Rightarrow> state \<Rightarrow> bool" where
  "marked nid s = (case document s nid of None \<Rightarrow> False | Some n \<Rightarrow> flagAdded n \<noteq> None)"

definition quiet' :: "nat \<Rightarrow> state \<Rightarrow> bool" where
  "quiet' nid s \<longleftrightarrow> (\<forall>cid n u b. calls s cid = Some (Awaiting n u b) \<longrightarrow> n \<noteq> nid)"

definition stuck :: "flag_added set \<Rightarrow> node \<Rightarrow> nat \<Rightarrow> state \<Rightarrow> bool" where
  "stuck M n0 nid s \<longleftrightarrow>
     (\<exists>m\<in>M. document s nid = Some (n0\<lparr>flagAdded := Some m\<rparr>)) \<and> quiet' nid s"

definition requeued :: "nat \<Rightarrow> state \<Rightarrow> bool" where
  "requeued n0 s \<longleftrightarrow>
     locationCache s = Map.empty \<and> microtasks s = [] \<and> n0 \<le> next_call s \<and>
     (\<forall>k n u. document s k = Some n \<longrightarrow> flagAdded n \<noteq> None \<longrightarrow> extracted n = Some u \<longrightarrow>
        u \<in> processingUsernames s) \<and>
     (\<forall>u\<in>processingUsernames s. \<exists>cid\<ge>n0. (cid, u) \<in> set (outstanding s))"

text \<open>
  Between a reset and the next scan: the events that resume no annotator call, load nothing
  into the cache and scan nothing (time passing, the timers of the cache and of the drain
  loop, the page adding an element, the toggle message), and the state they keep: nothing
  cached, no name in the set, no element marked.
\<close>

fun passive_event :: "event \<Rightarrow> bool" where
  "passive_event (Tick d) = True"
| "passive_event ContextInvalidated = True"
| "passive_event CacheLoaded = False"
| "passive_event FlushTimer = True"
| "passive_event FlushDone = True"
| "passive_event (PageInsert pos nid n) = True"
| "passive_event Scan = False"
| "passive_event (Toggle enabled) = True"
| "passive_event (WaiterWakes cid) = False"
| "passive_event DrainTimer = True"
| "passive_event DrainWakes = True"
| "passive_event (Response rid loc isRateLimited) = False"
| "passive_event (Timeout rid) = False"
| "passive_event (RateLimitInfo resetTime) = True"

definition cleared :: "state \<Rightarrow> bool" where
  "cleared s \<longleftrightarrow>
     locationCache s = Map.empty \<and> processingUsernames s = {} \<and> microtasks s = [] \<and>
     (\<forall>k n. document s k = Some n \<longrightarrow> flagAdded n = None)"

subsection \<open>Pages and runs for concrete cases\<close>

definition demo_cc :: "string \<Rightarrow> string option" where
  "demo_cc l = (if l = ''France'' then Some ''fr'' else None)"

definition demo_node :: "string \<Rightarrow> node" where
  "demo_node u =
     \<lparr>kind = ArticleUserName, extracted = Some u, has_container = True, shimmer_ok = True,
      link_found = True, insert_ok = True, flag_inside = True,
      flagAdded = None, flags = 0, shimmers = []\<rparr>"

definition demo_init :: state where
  "demo_init = init 1000 Map.empty True [(1, demo_node ''alice'')]"

definition demo_init2 :: state where
  "demo_init2 = init 1000 Map.empty True [(1, demo_node ''alice''), (2, demo_node ''alice'')]"

definition demo_init3 :: state where
  "demo_init3 = init 1000 Map.empty True
     [(1, demo_node ''alice''), (2, demo_node ''bob''), (3, demo_node ''carol'')]"


definition demo_flagged3 :: "event list" where
  "demo_flagged3 = [Scan, Tick 500, DrainWakes, Tick 500, DrainWakes,
     Response 0 (Some ''France'') False, Response 1 (Some ''France'') False,
     Response 2 (Some ''France'') False]"

section \<open>Frames and invariants\<close>

declare drain_loop.simps [simp del]

subsection \<open>Frames\<close>

lemma dispatch_frame:
  "\<exists>q a l b. dispatch s = s\<lparr>requestQueue := q, activeRequests := a, lastRequestTime := l, bridge := b\<rparr>"
proof (cases "requestQueue s")
  case Nil
  have "s = s\<lparr>requestQueue := requestQueue s, activeRequests := activeRequests s,
              lastRequestTime := lastRequestTime s, bridge := bridge s\<rparr>" by simp
  with Nil show ?thesis unfolding dispatch_def by (simp only: list.case) blast
next
  case (Cons x xs)
  obtain c n where x: "x = (c, n)" by (cases x)
  show ?thesis unfolding dispatch_def makeLocationRequest_def Cons x
    by (simp only: list.case prod.case) (rule exI | simp)+
qed

lemma drain_loop_exit:
  "\<not> (requestQueue s \<noteq> [] \<and> activeRequests s < MAX_CONCURRENT_REQUESTS) \<Longrightarrow>
   drain_loop s = s\<lparr>isProcessingQueue := False\<rparr>"
  by (subst drain_loop.simps) (simp only: if_False)

lemma drain_loop_sleep:
  "requestQueue s \<noteq> [] \<and> activeRequests s < MAX_CONCURRENT_REQUESTS \<Longrightarrow>
   clock s - lastRequestTime s < MIN_REQUEST_INTERVAL \<Longrightarrow>
   drain_loop s = s\<lparr>drain_wake := Some (clock s + (MIN_REQUEST_INTERVAL - (clock s - lastRequestTime s)))\<rparr>"
  by (subst drain_loop.simps) (simp add: Let_def)

lemma drain_loop_dispatch:
  "requestQueue s \<noteq> [] \<and> activeRequests s < MAX_CONCURRENT_REQUESTS \<Longrightarrow>
   \<not> clock s - lastRequestTime s < MIN_REQUEST_INTERVAL \<Longrightarrow>
   drain_loop s = drain_loop (dispatch s)"
  by (subst drain_loop.simps) (simp add: Let_def)

lemma drain_loop_frame:
  "\<exists>q a l b w p. drain_loop s =
     s\<lparr>requestQueue := q, activeRequests := a, lastRequestTime := l, bridge := b,
       drain_wake := w, isProcessingQueue := p\<rparr>"
proof (induction s rule: drain_loop.induct)
  case (1 s)
  have self: "s = s\<lparr>requestQueue := requestQueue s, activeRequests := activeRequests s,
      lastRequestTime := lastRequestTime s, bridge := bridge s, drain_wake := drain_wake s,
      isProcessingQueue := isProcessingQueue s\<rparr>" by simp
  show ?case
  proof (cases "requestQueue s \<noteq> [] \<and> activeRequests s < MAX_CONCURRENT_REQUESTS")
    case False
    then have "drain_loop s = s\<lparr>isProcessingQueue := False\<rparr>"
      by (rule drain_loop_exit)
    also have "\<dots> = s\<lparr>requestQueue := requestQueue s, activeRequests := activeRequests s,
      lastRequestTime := lastRequestTime s, bridge := bridge s, drain_wake := drain_wake s,
      isProcessingQueue := False\<rparr>" by simp
    finally show ?thesis by blast
  next
    case True
    show ?thesis
    proof (cases "clock s - lastRequestTime s < MIN_REQUEST_INTERVAL")
      case t: True
      with True have "drain_loop s = s\<lparr>drain_wake := Some (clock s + (MIN_REQUEST_INTERVAL - (clock s - lastRequestTime s)))\<rparr>"
        by (rule drain_loop_sleep)
      also have "\<dots> = s\<lparr>requestQueue := requestQueue s, activeRequests := activeRequests s,
        lastRequestTime := lastRequestTime s, bridge := bridge s,
        drain_wake := Some (clock s + (MIN_REQUEST_INTERVAL - (clock s - lastRequestTime s))),
        isProcessingQueue := isProcessingQueue s\<rparr>" by simp
      finally show ?thesis by blast
    next
      case f: False
      with True have eq: "drain_loop s = drain_loop (dispatch s)"
        by (rule drain_loop_dispatch)
      from "1.IH"[OF True refl f] obtain q a l b w p where
        ih: "drain_loop (dispatch s) = (dispatch s)\<lparr>requestQueue := q, activeRequests := a,
          lastRequestTime := l, bridge := b, drain_wake := w, isProcessingQueue := p\<rparr>" by blast
      obtain q' a' l' b' where d: "dispatch s = s\<lparr>requestQueue := q', activeRequests := a',
          lastRequestTime := l', bridge := b'\<rparr>" using dispatch_frame by blast
      have "drain_loop s = s\<lparr>requestQueue := q, activeRequests := a,
          lastRequestTime := l, bridge := b, drain_wake := w, isProcessingQueue := p\<rparr>"
        unfolding eq ih by (subst d) simp
      then show ?thesis by blast
    qed
  qed
qed

lemma processRequestQueue_frame:
  "\<exists>q a l b w p r. processRequestQueue s =
     s\<lparr>requestQueue := q, activeRequests := a, lastRequestTime := l, bridge := b,
       drain_wake := w, isProcessingQueue := p, rateLimitResetTime := r\<rparr>"
proof -
  have self: "s = s\<lparr>requestQueue := requestQueue s, activeRequests := activeRequests s,
      lastRequestTime := lastRequestTime s, bridge := bridge s, drain_wake := drain_wake s,
      isProcessingQueue := isProcessingQueue s, rateLimitResetTime := rateLimitResetTime s\<rparr>" by simp
  let ?s' = "s\<lparr>rateLimitResetTime := (if rateLimitResetTime s > 0 then 0 else rateLimitResetTime s),
                isProcessingQueue := True\<rparr>"
  obtain q a l b w p where d: "drain_loop ?s' = ?s'\<lparr>requestQueue := q, activeRequests := a,
       lastRequestTime := l, bridge := b, drain_wake := w, isProcessingQueue := p\<rparr>"
    using drain_loop_frame by blast
  have "processRequestQueue s = s \<or> processRequestQueue s = drain_loop ?s'"
    unfolding processRequestQueue_def by simp
  then show ?thesis
  proof
    assume "processRequestQueue s = s" with self show ?thesis by metis
  next
    assume "processRequestQueue s = drain_loop ?s'"
    then have "processRequestQueue s = s\<lparr>requestQueue := q, activeRequests := a, lastRequestTime := l, bridge := b,
       drain_wake := w, isProcessingQueue := p, rateLimitResetTime := (if rateLimitResetTime s > 0 then 0 else rateLimitResetTime s)\<rparr>"
      by (simp add: d)
    then show ?thesis by blast
  qed
qed

lemma drain_resume_frame:
  "\<exists>q a l b w p. drain_resume s =
     s\<lparr>requestQueue := q, activeRequests := a, lastRequestTime := l, bridge := b,
       drain_wake := w, isProcessingQueue := p\<rparr>"
proof (cases "requestQueue s")
  case Nil
  then have "drain_resume s = s\<lparr>requestQueue := requestQueue s, activeRequests := activeRequests s,
      lastRequestTime := lastRequestTime s, bridge := bridge s, drain_wake := None,
      isProcessingQueue := isProcessingQueue s\<rparr>" by (simp add: drain_resume_def)
  then show ?thesis by blast
next
  case (Cons x xs)
  let ?s' = "s\<lparr>drain_wake := None\<rparr>"
  obtain q' a' l' b' where d: "dispatch ?s' = ?s'\<lparr>requestQueue := q', activeRequests := a',
          lastRequestTime := l', bridge := b'\<rparr>" using dispatch_frame by blast
  obtain q a l b w p where
    ih: "drain_loop (dispatch ?s') = (dispatch ?s')\<lparr>requestQueue := q, activeRequests := a,
      lastRequestTime := l, bridge := b, drain_wake := w, isProcessingQueue := p\<rparr>"
    using drain_loop_frame by blast
  have "drain_resume s = s\<lparr>requestQueue := q, activeRequests := a,
      lastRequestTime := l, bridge := b, drain_wake := w, isProcessingQueue := p\<rparr>"
    using Cons unfolding drain_resume_def by (simp add: ih) (simp add: d)
  then show ?thesis by blast
qed

lemma dispatch_fields [simp]:
  "clock (dispatch s) = clock s" "runtime_ok (dispatch s) = runtime_ok s"
  "storage (dispatch s) = storage s" "load_pending (dispatch s) = load_pending s"
  "locationCache (dispatch s) = locationCache s" "flush (dispatch s) = flush s"
  "extensionEnabled (dispatch s) = extensionEnabled s"
  "processingUsernames (dispatch s) = processingUsernames s"
  "document (dispatch s) = document s" "scan_order (dispatch s) = scan_order s"
  "stray_flags (dispatch s) = stray_flags s" "calls (dispatch s) = calls s"
  "next_call (dispatch s) = next_call s" "microtasks (dispatch s) = microtasks s"
  "rateLimitResetTime (dispatch s) = rateLimitResetTime s"
  "drain_wake (dispatch s) = drain_wake s" "isProcessingQueue (dispatch s) = isProcessingQueue s"
proof -
  obtain q a l b where e: "dispatch s = s\<lparr>requestQueue := q, activeRequests := a, lastRequestTime := l, bridge := b\<rparr>"
    using dispatch_frame by blast
  show "clock (dispatch s) = clock s" "runtime_ok (dispatch s) = runtime_ok s"
  "storage (dispatch s) = storage s" "load_pending (dispatch s) = load_pending s"
  "locationCache (dispatch s) = locationCache s" "flush (dispatch s) = flush s"
  "extensionEnabled (dispatch s) = extensionEnabled s"
  "processingUsernames (dispatch s) = processingUsernames s"
  "document (dispatch s) = document s" "scan_order (dispatch s) = scan_order s"
  "stray_flags (dispatch s) = stray_flags s" "calls (dispatch s) = calls s"
  "next_call (dispatch s) = next_call s" "microtasks (dispatch s) = microtasks s"
  "rateLimitResetTime (dispatch s) = rateLimitResetTime s"
  "drain_wake (dispatch s) = drain_wake s" "isProcessingQueue (dispatch s) = isProcessingQueue s"
    by (simp_all add: e)
qed

lemma drain_loop_fields [simp]:
  "clock (drain_loop s) = clock s" "runtime_ok (drain_loop s) = runtime_ok s"
  "storage (drain_loop s) = storage s" "load_pending (drain_loop s) = load_pending s"
  "locationCache (drain_loop s) = locationCache s" "flush (drain_loop s) = flush s"
  "extensionEnabled (drain_loop s) = extensionEnabled s"
  "processingUsernames (drain_loop s) = processingUsernames s"
  "document (drain_loop s) = document s" "scan_order (drain_loop s) = scan_order s"
  "stray_flags (drain_loop s) = stray_flags s" "calls (drain_loop s) = calls s"
  "next_call (drain_loop s) = next_call s" "microtasks (drain_loop s) = microtasks s"
  "rateLimitResetTime (drain_loop s) = rateLimitResetTime s"
proof -
  obtain q a l b w p where e: "drain_loop s =
     s\<lparr>requestQueue := q, activeRequests := a, lastRequestTime := l, bridge := b,
       drain_wake := w, isProcessingQueue := p\<rparr>"
    using drain_loop_frame by blast
  show "clock (drain_loop s) = clock s" "runtime_ok (drain_loop s) = runtime_ok s"
  "storage (drain_loop s) = storage s" "load_pending (drain_loop s) = load_pending s"
  "locationCache (drain_loop s) = locationCache s" "flush (drain_loop s) = flush s"
  "extensionEnabled (drain_loop s) = extensionEnabled s"
  "processingUsernames (drain_loop s) = processingUsernames s"
  "document (drain_loop s) = document s" "scan_order (drain_loop s) = scan_order s"
  "stray_flags (drain_loop s) = stray_flags s" "calls (drain_loop s) = calls s"
  "next_call (drain_loop s) = next_call s" "microtasks (drain_loop s) = microtasks s"
  "rateLimitResetTime (drain_loop s) = rateLimitResetTime s"
    by (simp_all add: e)
qed

lemma processRequestQueue_fields [simp]:
  "clock (processRequestQueue s) = clock s" "runtime_ok (processRequestQueue s) = runtime_ok s"
  "storage (processRequestQueue s) = storage s" "load_pending (processRequestQueue s) = load_pending s"
  "locationCache (processRequestQueue s) = locationCache s" "flush (processRequestQueue s) = flush s"
  "extensionEnabled (processRequestQueue s) = extensionEnabled s"
  "processingUsernames (processRequestQueue s) = processingUsernames s"
  "document (processRequestQueue s) = document s" "scan_order (processRequestQueue s) = scan_order s"
  "stray_flags (processRequestQueue s) = stray_flags s" "calls (processRequestQueue s) = calls s"
  "next_call (processRequestQueue s) = next_call s" "microtasks (processRequestQueue s) = microtasks s"
proof -
  obtain q a l b w p r where e: "processRequestQueue s =
     s\<lparr>requestQueue := q, activeRequests := a, lastRequestTime := l, bridge := b,
       drain_wake := w, isProcessingQueue := p, rateLimitResetTime := r\<rparr>"
    using processRequestQueue_frame by blast
  show "clock (processRequestQueue s) = clock s" "runtime_ok (processRequestQueue s) = runtime_ok s"
  "storage (processRequestQueue s) = storage s" "load_pending (processRequestQueue s) = load_pending s"
  "locationCache (processRequestQueue s) = locationCache s" "flush (processRequestQueue s) = flush s"
  "extensionEnabled (processRequestQueue s) = extensionEnabled s"
  "processingUsernames (processRequestQueue s) = processingUsernames s"
  "document (processRequestQueue s) = document s" "scan_order (processRequestQueue s) = scan_order s"
  "stray_flags (processRequestQueue s) = stray_flags s" "calls (processRequestQueue s) = calls s"
  "next_call (processRequestQueue s) = next_call s" "microtasks (processRequestQueue s) = microtasks s"
    by (simp_all add: e)
qed

lemma drain_resume_fields [simp]:
  "clock (drain_resume s) = clock s" "runtime_ok (drain_resume s) = runtime_ok s"
  "storage (drain_resume s) = storage s" "load_pending (drain_resume s) = load_pending s"
  "locationCache (drain_resume s) = locationCache s" "flush (drain_resume s) = flush s"
  "extensionEnabled (drain_resume s) = extensionEnabled s"
  "processingUsernames (drain_resume s) = processingUsernames s"
  "document (drain_resume s) = document s" "scan_order (drain_resume s) = scan_order s"
  "stray_flags (drain_resume s) = stray_flags s" "calls (drain_resume s) = calls s"
  "next_call (drain_resume s) = next_call s" "microtasks (drain_resume s) = microtasks s"
  "rateLimitResetTime (drain_resume s) = rateLimitResetTime s"
proof -
  obtain q a l b w p where e: "drain_resume s =
     s\<lparr>requestQueue := q, activeRequests := a, lastRequestTime := l, bridge := b,
       drain_wake := w, isProcessingQueue := p\<rparr>"
    using drain_resume_frame by blast
  show "clock (drain_resume s) = clock s" "runtime_ok (drain_resume s) = runtime_ok s"
  "storage (drain_resume s) = storage s" "load_pending (drain_resume s) = load_pending s"
  "locationCache (drain_resume s) = locationCache s" "flush (drain_resume s) = flush s"
  "extensionEnabled (drain_resume s) = extensionEnabled s"
  "processingUsernames (drain_resume s) = processingUsernames s"
  "document (drain_resume s) = document s" "scan_order (drain_resume s) = scan_order s"
  "stray_flags (drain_resume s) = stray_flags s" "calls (drain_resume s) = calls s"
  "next_call (drain_resume s) = next_call s" "microtasks (drain_resume s) = microtasks s"
  "rateLimitResetTime (drain_resume s) = rateLimitResetTime s"
    by (simp_all add: e)
qed

subsection \<open>Scheduler invariant\<close>

lemma spaced_snoc:
  "spaced xs \<Longrightarrow> \<forall>x\<in>set xs. x + MIN_REQUEST_INTERVAL \<le> t \<Longrightarrow> spaced (xs @ [t])"
  by (induction xs rule: spaced.induct) auto

lemma dispatch_sched:
  assumes "requestQueue s \<noteq> []"
    and "lastRequestTime s + MIN_REQUEST_INTERVAL \<le> clock s"
    and "\<forall>r\<in>set (bridge s). started r \<le> lastRequestTime s"
    and "spaced (map started (bridge s))"
    and "activeRequests s = int (length (filter pending (bridge s)))"
  shows "lastRequestTime (dispatch s) = clock s"
    and "\<forall>r\<in>set (bridge (dispatch s)). started r \<le> lastRequestTime (dispatch s)"
    and "spaced (map started (bridge (dispatch s)))"
    and "activeRequests (dispatch s) = int (length (filter pending (bridge (dispatch s))))"
    and "activeRequests (dispatch s) = activeRequests s + 1"
proof -
  obtain c n rest where q: "requestQueue s = (c, n) # rest"
    using assms(1) by (cases "requestQueue s") auto
  have d: "dispatch s = s\<lparr>requestQueue := rest, activeRequests := activeRequests s + 1,
      lastRequestTime := clock s,
      bridge := bridge s @ [\<lparr>req_id = c, req_name = n, started = clock s,
            listening = True, timer_armed = True, promise = Pending\<rparr>]\<rparr>"
    by (simp add: dispatch_def makeLocationRequest_def q)
  have m: "MIN_REQUEST_INTERVAL \<ge> 0" by (simp add: MIN_REQUEST_INTERVAL_def)
  show "lastRequestTime (dispatch s) = clock s" by (simp add: d)
  show "\<forall>r\<in>set (bridge (dispatch s)). started r \<le> lastRequestTime (dispatch s)"
    using assms(2,3) m by (auto simp: d)
  show "spaced (map started (bridge (dispatch s)))"
  proof -
    have "\<forall>x\<in>set (map started (bridge s)). x + MIN_REQUEST_INTERVAL \<le> clock s"
      using assms(2,3) by fastforce
    from spaced_snoc[OF assms(4) this] show ?thesis by (simp add: d)
  qed
  show "activeRequests (dispatch s) = int (length (filter pending (bridge (dispatch s))))"
    using assms(5) by (simp add: d pending_def)
  show "activeRequests (dispatch s) = activeRequests s + 1" by (simp add: d)
qed

lemma drain_loop_sched:
  "lastRequestTime s \<le> clock s \<Longrightarrow>
   \<forall>r\<in>set (bridge s). started r \<le> lastRequestTime s \<Longrightarrow>
   spaced (map started (bridge s)) \<Longrightarrow>
   activeRequests s = int (length (filter pending (bridge s))) \<Longrightarrow>
   activeRequests s \<le> MAX_CONCURRENT_REQUESTS \<Longrightarrow>
   drain_wake s = None \<Longrightarrow> isProcessingQueue s \<Longrightarrow>
   sched_inv (drain_loop s)"
proof (induction s rule: drain_loop.induct)
  case (1 s)
  show ?case
  proof (cases "requestQueue s \<noteq> [] \<and> activeRequests s < MAX_CONCURRENT_REQUESTS")
    case False
    then show ?thesis using "1.prems"
      by (simp add: drain_loop_exit sched_inv_def)
  next
    case True
    show ?thesis
    proof (cases "clock s - lastRequestTime s < MIN_REQUEST_INTERVAL")
      case t: True
      show ?thesis using "1.prems" True
        by (simp add: drain_loop_sleep[OF True t] sched_inv_def)
    next
      case f: False
      then have sp: "lastRequestTime s + MIN_REQUEST_INTERVAL \<le> clock s" by simp
      from True have ne: "requestQueue s \<noteq> []" by simp
      note d = dispatch_sched[OF ne sp "1.prems"(2,3,4)]
      have "sched_inv (drain_loop (dispatch s))"
      proof (rule "1.IH"[OF True refl f])
        show "lastRequestTime (dispatch s) \<le> clock (dispatch s)" using d(1) by simp
        show "\<forall>r\<in>set (bridge (dispatch s)). started r \<le> lastRequestTime (dispatch s)" by (rule d(2))
        show "spaced (map started (bridge (dispatch s)))" by (rule d(3))
        show "activeRequests (dispatch s) = int (length (filter pending (bridge (dispatch s))))" by (rule d(4))
        show "activeRequests (dispatch s) \<le> MAX_CONCURRENT_REQUESTS" using d(5) True by simp
        show "drain_wake (dispatch s) = None" using "1.prems" by simp
        show "isProcessingQueue (dispatch s)" using "1.prems" by simp
      qed
      then show ?thesis by (simp add: drain_loop_dispatch[OF True f])
    qed
  qed
qed

lemma processRequestQueue_sched: "sched_inv s \<Longrightarrow> sched_inv (processRequestQueue s)"
proof -
  assume inv: "sched_inv s"
  let ?s' = "s\<lparr>rateLimitResetTime := (if rateLimitResetTime s > 0 then 0 else rateLimitResetTime s),
                isProcessingQueue := True\<rparr>"
  have "processRequestQueue s = s \<or> (\<not> isProcessingQueue s \<and> processRequestQueue s = drain_loop ?s')"
    unfolding processRequestQueue_def by simp
  then show ?thesis
  proof
    assume "processRequestQueue s = s" with inv show ?thesis by simp
  next
    assume a: "\<not> isProcessingQueue s \<and> processRequestQueue s = drain_loop ?s'"
    with inv have w: "drain_wake s = None"
      by (auto simp: sched_inv_def split: option.splits)
    have "sched_inv (drain_loop ?s')"
      by (rule drain_loop_sched) (use inv w in \<open>auto simp: sched_inv_def\<close>)
    with a show ?thesis by simp
  qed
qed

lemma drain_resume_sched:
  assumes inv: "sched_inv s" and w: "drain_wake s = Some due" and c: "due \<le> clock s"
  shows "sched_inv (drain_resume s)"
proof (cases "requestQueue s")
  case Nil
  then show ?thesis using inv by (simp add: drain_resume_def sched_inv_def)
next
  case (Cons x xs)
  let ?s' = "s\<lparr>drain_wake := None\<rparr>"
  have ne: "requestQueue ?s' \<noteq> []" using Cons by simp
  have sp: "lastRequestTime ?s' + MIN_REQUEST_INTERVAL \<le> clock ?s'"
    using inv w c by (simp add: sched_inv_def)
  have p: "\<forall>r\<in>set (bridge ?s'). started r \<le> lastRequestTime ?s'"
    "spaced (map started (bridge ?s'))"
    "activeRequests ?s' = int (length (filter pending (bridge ?s')))"
    using inv by (simp_all add: sched_inv_def)
  note d = dispatch_sched[OF ne sp p]
  have "sched_inv (drain_loop (dispatch ?s'))"
  proof (rule drain_loop_sched)
    show "lastRequestTime (dispatch ?s') \<le> clock (dispatch ?s')" using d(1) by simp
    show "\<forall>r\<in>set (bridge (dispatch ?s')). started r \<le> lastRequestTime (dispatch ?s')" by (rule d(2))
    show "spaced (map started (bridge (dispatch ?s')))" by (rule d(3))
    show "activeRequests (dispatch ?s') = int (length (filter pending (bridge (dispatch ?s'))))" by (rule d(4))
    show "activeRequests (dispatch ?s') \<le> MAX_CONCURRENT_REQUESTS"
      using d(5) inv w by (simp add: sched_inv_def)
    show "drain_wake (dispatch ?s') = None" by simp
    show "isProcessingQueue (dispatch ?s')" using inv w by (simp add: sched_inv_def)
  qed
  then show ?thesis using Cons by (simp add: drain_resume_def)
qed

subsection \<open>What each function leaves alone\<close>

lemma loadCache_fields [simp]:
  "clock (loadCache s) = clock s"
  "runtime_ok (loadCache s) = runtime_ok s"
  "storage (loadCache s) = storage s"
  "load_pending (loadCache s) = load_pending s"
  "flush (loadCache s) = flush s"
  "requestQueue (loadCache s) = requestQueue s"
  "isProcessingQueue (loadCache s) = isProcessingQueue s"
  "drain_wake (loadCache s) = drain_wake s"
  "lastRequestTime (loadCache s) = lastRequestTime s"
  "activeRequests (loadCache s) = activeRequests s"
  "rateLimitResetTime (loadCache s) = rateLimitResetTime s"
  "bridge (loadCache s) = bridge s"
  "extensionEnabled (loadCache s) = extensionEnabled s"
  "processingUsernames (loadCache s) = processingUsernames s"
  "document (loadCache s) = document s"
  "scan_order (loadCache s) = scan_order s"
  "stray_flags (loadCache s) = stray_flags s"
  "calls (loadCache s) = calls s"
  "next_call (loadCache s) = next_call s"
  "microtasks (loadCache s) = microtasks s"
  by (simp_all add: loadCache_def)

lemma saveCache_fields [simp]:
  "clock (saveCache s) = clock s"
  "runtime_ok (saveCache s) = runtime_ok s"
  "load_pending (saveCache s) = load_pending s"
  "locationCache (saveCache s) = locationCache s"
  "flush (saveCache s) = flush s"
  "requestQueue (saveCache s) = requestQueue s"
  "isProcessingQueue (saveCache s) = isProcessingQueue s"
  "drain_wake (saveCache s) = drain_wake s"
  "lastRequestTime (saveCache s) = lastRequestTime s"
  "activeRequests (saveCache s) = activeRequests s"
  "rateLimitResetTime (saveCache s) = rateLimitResetTime s"
  "bridge (saveCache s) = bridge s"
  "extensionEnabled (saveCache s) = extensionEnabled s"
  "processingUsernames (saveCache s) = processingUsernames s"
  "document (saveCache s) = document s"
  "scan_order (saveCache s) = scan_order s"
  "stray_flags (saveCache s) = stray_flags s"
  "calls (saveCache s) = calls s"
  "next_call (saveCache s) = next_call s"
  "microtasks (saveCache s) = microtasks s"
  by (simp_all add: saveCache_def)

lemma saveCacheEntry_fields [simp]:
  "clock (saveCacheEntry u l s) = clock s"
  "runtime_ok (saveCacheEntry u l s) = runtime_ok s"
  "storage (saveCacheEntry u l s) = storage s"
  "load_pending (saveCacheEntry u l s) = load_pending s"
  "requestQueue (saveCacheEntry u l s) = requestQueue s"
  "isProcessingQueue (saveCacheEntry u l s) = isProcessingQueue s"
  "drain_wake (saveCacheEntry u l s) = drain_wake s"
  "lastRequestTime (saveCacheEntry u l s) = lastRequestTime s"
  "activeRequests (saveCacheEntry u l s) = activeRequests s"
  "rateLimitResetTime (saveCacheEntry u l s) = rateLimitResetTime s"
  "bridge (saveCacheEntry u l s) = bridge s"
  "extensionEnabled (saveCacheEntry u l s) = extensionEnabled s"
  "processingUsernames (saveCacheEntry u l s) = processingUsernames s"
  "document (saveCacheEntry u l s) = document s"
  "scan_order (saveCacheEntry u l s) = scan_order s"
  "stray_flags (saveCacheEntry u l s) = stray_flags s"
  "calls (saveCacheEntry u l s) = calls s"
  "next_call (saveCacheEntry u l s) = next_call s"
  "microtasks (saveCacheEntry u l s) = microtasks s"
  by (simp_all add: saveCacheEntry_def)

lemma upd_req_fields [simp]:
  "clock (upd_req rid f s) = clock s"
  "runtime_ok (upd_req rid f s) = runtime_ok s"
  "storage (upd_req rid f s) = storage s"
  "load_pending (upd_req rid f s) = load_pending s"
  "locationCache (upd_req rid f s) = locationCache s"
  "flush (upd_req rid f s) = flush s"
  "requestQueue (upd_req rid f s) = requestQueue s"
  "isProcessingQueue (upd_req rid f s) = isProcessingQueue s"
  "drain_wake (upd_req rid f s) = drain_wake s"
  "lastRequestTime (upd_req rid f s) = lastRequestTime s"
  "activeRequests (upd_req rid f s) = activeRequests s"
  "rateLimitResetTime (upd_req rid f s) = rateLimitResetTime s"
  "extensionEnabled (upd_req rid f s) = extensionEnabled s"
  "processingUsernames (upd_req rid f s) = processingUsernames s"
  "document (upd_req rid f s) = document s"
  "scan_order (upd_req rid f s) = scan_order s"
  "stray_flags (upd_req rid f s) = stray_flags s"
  "calls (upd_req rid f s) = calls s"
  "next_call (upd_req rid f s) = next_call s"
  "microtasks (upd_req rid f s) = microtasks s"
  by (simp_all add: upd_req_def)

lemma waiter_resume_fields [simp]:
  "clock (waiter_resume cid s) = clock s"
  "runtime_ok (waiter_resume cid s) = runtime_ok s"
  "storage (waiter_resume cid s) = storage s"
  "load_pending (waiter_resume cid s) = load_pending s"
  "locationCache (waiter_resume cid s) = locationCache s"
  "flush (waiter_resume cid s) = flush s"
  "requestQueue (waiter_resume cid s) = requestQueue s"
  "isProcessingQueue (waiter_resume cid s) = isProcessingQueue s"
  "drain_wake (waiter_resume cid s) = drain_wake s"
  "lastRequestTime (waiter_resume cid s) = lastRequestTime s"
  "activeRequests (waiter_resume cid s) = activeRequests s"
  "rateLimitResetTime (waiter_resume cid s) = rateLimitResetTime s"
  "bridge (waiter_resume cid s) = bridge s"
  "extensionEnabled (waiter_resume cid s) = extensionEnabled s"
  "processingUsernames (waiter_resume cid s) = processingUsernames s"
  "scan_order (waiter_resume cid s) = scan_order s"
  "stray_flags (waiter_resume cid s) = stray_flags s"
  "next_call (waiter_resume cid s) = next_call s"
  "microtasks (waiter_resume cid s) = microtasks s"
  by (simp_all add: waiter_resume_def Let_def split: option.splits call.splits)

lemma addFlag_resume_fields [simp]:
  "clock (addFlag_resume cc cid v s) = clock s"
  "runtime_ok (addFlag_resume cc cid v s) = runtime_ok s"
  "storage (addFlag_resume cc cid v s) = storage s"
  "load_pending (addFlag_resume cc cid v s) = load_pending s"
  "locationCache (addFlag_resume cc cid v s) = locationCache s"
  "flush (addFlag_resume cc cid v s) = flush s"
  "requestQueue (addFlag_resume cc cid v s) = requestQueue s"
  "isProcessingQueue (addFlag_resume cc cid v s) = isProcessingQueue s"
  "drain_wake (addFlag_resume cc cid v s) = drain_wake s"
  "lastRequestTime (addFlag_resume cc cid v s) = lastRequestTime s"
  "activeRequests (addFlag_resume cc cid v s) = activeRequests s"
  "rateLimitResetTime (addFlag_resume cc cid v s) = rateLimitResetTime s"
  "bridge (addFlag_resume cc cid v s) = bridge s"
  "extensionEnabled (addFlag_resume cc cid v s) = extensionEnabled s"
  "scan_order (addFlag_resume cc cid v s) = scan_order s"
  "next_call (addFlag_resume cc cid v s) = next_call s"
  "microtasks (addFlag_resume cc cid v s) = microtasks s"
  by (simp_all add: addFlag_resume_def Let_def split: option.splits call.splits prod.splits)

lemma removeAllFlags_fields [simp]:
  "clock (removeAllFlags s) = clock s"
  "runtime_ok (removeAllFlags s) = runtime_ok s"
  "storage (removeAllFlags s) = storage s"
  "load_pending (removeAllFlags s) = load_pending s"
  "flush (removeAllFlags s) = flush s"
  "requestQueue (removeAllFlags s) = requestQueue s"
  "isProcessingQueue (removeAllFlags s) = isProcessingQueue s"
  "drain_wake (removeAllFlags s) = drain_wake s"
  "lastRequestTime (removeAllFlags s) = lastRequestTime s"
  "activeRequests (removeAllFlags s) = activeRequests s"
  "rateLimitResetTime (removeAllFlags s) = rateLimitResetTime s"
  "bridge (removeAllFlags s) = bridge s"
  "extensionEnabled (removeAllFlags s) = extensionEnabled s"
  "scan_order (removeAllFlags s) = scan_order s"
  "calls (removeAllFlags s) = calls s"
  "next_call (removeAllFlags s) = next_call s"
  "microtasks (removeAllFlags s) = microtasks s"
  by (simp_all add: removeAllFlags_def)

lemma toggle_fields [simp]:
  "clock (toggle b s) = clock s"
  "runtime_ok (toggle b s) = runtime_ok s"
  "storage (toggle b s) = storage s"
  "load_pending (toggle b s) = load_pending s"
  "flush (toggle b s) = flush s"
  "requestQueue (toggle b s) = requestQueue s"
  "isProcessingQueue (toggle b s) = isProcessingQueue s"
  "drain_wake (toggle b s) = drain_wake s"
  "lastRequestTime (toggle b s) = lastRequestTime s"
  "activeRequests (toggle b s) = activeRequests s"
  "rateLimitResetTime (toggle b s) = rateLimitResetTime s"
  "bridge (toggle b s) = bridge s"
  "scan_order (toggle b s) = scan_order s"
  "calls (toggle b s) = calls s"
  "next_call (toggle b s) = next_call s"
  "microtasks (toggle b s) = microtasks s"
  by (simp_all add: toggle_def Let_def)

lemma page_insert_fields [simp]:
  "clock (page_insert pos nid n s) = clock s"
  "runtime_ok (page_insert pos nid n s) = runtime_ok s"
  "storage (page_insert pos nid n s) = storage s"
  "load_pending (page_insert pos nid n s) = load_pending s"
  "locationCache (page_insert pos nid n s) = locationCache s"
  "flush (page_insert pos nid n s) = flush s"
  "requestQueue (page_insert pos nid n s) = requestQueue s"
  "isProcessingQueue (page_insert pos nid n s) = isProcessingQueue s"
  "drain_wake (page_insert pos nid n s) = drain_wake s"
  "lastRequestTime (page_insert pos nid n s) = lastRequestTime s"
  "activeRequests (page_insert pos nid n s) = activeRequests s"
  "rateLimitResetTime (page_insert pos nid n s) = rateLimitResetTime s"
  "bridge (page_insert pos nid n s) = bridge s"
  "extensionEnabled (page_insert pos nid n s) = extensionEnabled s"
  "processingUsernames (page_insert pos nid n s) = processingUsernames s"
  "stray_flags (page_insert pos nid n s) = stray_flags s"
  "calls (page_insert pos nid n s) = calls s"
  "next_call (page_insert pos nid n s) = next_call s"
  "microtasks (page_insert pos nid n s) = microtasks s"
  by (simp_all add: page_insert_def)

lemma resolve_req_fields [simp]:
  "clock (resolve_req cc rid v s) = clock s"
  "runtime_ok (resolve_req cc rid v s) = runtime_ok s"
  "storage (resolve_req cc rid v s) = storage s"
  "load_pending (resolve_req cc rid v s) = load_pending s"
  "locationCache (resolve_req cc rid v s) = locationCache s"
  "flush (resolve_req cc rid v s) = flush s"
  "requestQueue (resolve_req cc rid v s) = requestQueue s"
  "isProcessingQueue (resolve_req cc rid v s) = isProcessingQueue s"
  "drain_wake (resolve_req cc rid v s) = drain_wake s"
  "lastRequestTime (resolve_req cc rid v s) = lastRequestTime s"
  "rateLimitResetTime (resolve_req cc rid v s) = rateLimitResetTime s"
  "extensionEnabled (resolve_req cc rid v s) = extensionEnabled s"
  "scan_order (resolve_req cc rid v s) = scan_order s"
  "next_call (resolve_req cc rid v s) = next_call s"
  "microtasks (resolve_req cc rid v s) = microtasks s"
  by (simp_all add: resolve_req_def Let_def split: option.splits)

lemma handler_fields [simp]:
  "clock (handler cc rid l rl s) = clock s"
  "runtime_ok (handler cc rid l rl s) = runtime_ok s"
  "storage (handler cc rid l rl s) = storage s"
  "load_pending (handler cc rid l rl s) = load_pending s"
  "requestQueue (handler cc rid l rl s) = requestQueue s"
  "isProcessingQueue (handler cc rid l rl s) = isProcessingQueue s"
  "drain_wake (handler cc rid l rl s) = drain_wake s"
  "lastRequestTime (handler cc rid l rl s) = lastRequestTime s"
  "rateLimitResetTime (handler cc rid l rl s) = rateLimitResetTime s"
  "extensionEnabled (handler cc rid l rl s) = extensionEnabled s"
  "scan_order (handler cc rid l rl s) = scan_order s"
  "next_call (handler cc rid l rl s) = next_call s"
  "microtasks (handler cc rid l rl s) = microtasks s"
  by (simp_all add: handler_def Let_def split: option.splits)

lemma request_timeout_fields [simp]:
  "clock (request_timeout cc rid s) = clock s"
  "runtime_ok (request_timeout cc rid s) = runtime_ok s"
  "storage (request_timeout cc rid s) = storage s"
  "load_pending (request_timeout cc rid s) = load_pending s"
  "locationCache (request_timeout cc rid s) = locationCache s"
  "flush (request_timeout cc rid s) = flush s"
  "requestQueue (request_timeout cc rid s) = requestQueue s"
  "isProcessingQueue (request_timeout cc rid s) = isProcessingQueue s"
  "drain_wake (request_timeout cc rid s) = drain_wake s"
  "lastRequestTime (request_timeout cc rid s) = lastRequestTime s"
  "rateLimitResetTime (request_timeout cc rid s) = rateLimitResetTime s"
  "extensionEnabled (request_timeout cc rid s) = extensionEnabled s"
  "scan_order (request_timeout cc rid s) = scan_order s"
  "next_call (request_timeout cc rid s) = next_call s"
  "microtasks (request_timeout cc rid s) = microtasks s"
  by (simp_all add: request_timeout_def Let_def split: option.splits)

lemma getUserLocation_fields [simp]:
  "clock (getUserLocation cid u s) = clock s"
  "runtime_ok (getUserLocation cid u s) = runtime_ok s"
  "storage (getUserLocation cid u s) = storage s"
  "load_pending (getUserLocation cid u s) = load_pending s"
  "flush (getUserLocation cid u s) = flush s"
  "extensionEnabled (getUserLocation cid u s) = extensionEnabled s"
  "processingUsernames (getUserLocation cid u s) = processingUsernames s"
  "document (getUserLocation cid u s) = document s"
  "scan_order (getUserLocation cid u s) = scan_order s"
  "stray_flags (getUserLocation cid u s) = stray_flags s"
  "calls (getUserLocation cid u s) = calls s"
  "next_call (getUserLocation cid u s) = next_call s"
  by (simp_all add: getUserLocation_def split: option.splits)

lemma addFlagToUsername_fields [simp]:
  "clock (addFlagToUsername nid u s) = clock s"
  "runtime_ok (addFlagToUsername nid u s) = runtime_ok s"
  "storage (addFlagToUsername nid u s) = storage s"
  "load_pending (addFlagToUsername nid u s) = load_pending s"
  "flush (addFlagToUsername nid u s) = flush s"
  "extensionEnabled (addFlagToUsername nid u s) = extensionEnabled s"
  "scan_order (addFlagToUsername nid u s) = scan_order s"
  "stray_flags (addFlagToUsername nid u s) = stray_flags s"
  by (simp_all add: addFlagToUsername_def Let_def split: option.splits)

lemma visit_fields [simp]:
  "clock (visit nid s) = clock s"
  "runtime_ok (visit nid s) = runtime_ok s"
  "storage (visit nid s) = storage s"
  "load_pending (visit nid s) = load_pending s"
  "flush (visit nid s) = flush s"
  "extensionEnabled (visit nid s) = extensionEnabled s"
  "scan_order (visit nid s) = scan_order s"
  "stray_flags (visit nid s) = stray_flags s"
  by (simp_all add: visit_def split: option.splits)

lemma fold_visit_fields [simp]:
  "clock (fold visit xs s) = clock s"
  "runtime_ok (fold visit xs s) = runtime_ok s"
  "storage (fold visit xs s) = storage s"
  "load_pending (fold visit xs s) = load_pending s"
  "flush (fold visit xs s) = flush s"
  "extensionEnabled (fold visit xs s) = extensionEnabled s"
  "scan_order (fold visit xs s) = scan_order s"
  "stray_flags (fold visit xs s) = stray_flags s"
  by (induction xs arbitrary: s; simp)+

lemma processUsernames_fields [simp]:
  "clock (processUsernames s) = clock s"
  "runtime_ok (processUsernames s) = runtime_ok s"
  "storage (processUsernames s) = storage s"
  "load_pending (processUsernames s) = load_pending s"
  "flush (processUsernames s) = flush s"
  "extensionEnabled (processUsernames s) = extensionEnabled s"
  "scan_order (processUsernames s) = scan_order s"
  "stray_flags (processUsernames s) = stray_flags s"
  by (simp_all add: processUsernames_def)

lemma fold_resume_fields [simp]:
  "clock (fold (\<lambda>(cid, v). addFlag_resume cc cid v) ms s) = clock s"
  "runtime_ok (fold (\<lambda>(cid, v). addFlag_resume cc cid v) ms s) = runtime_ok s"
  "storage (fold (\<lambda>(cid, v). addFlag_resume cc cid v) ms s) = storage s"
  "load_pending (fold (\<lambda>(cid, v). addFlag_resume cc cid v) ms s) = load_pending s"
  "locationCache (fold (\<lambda>(cid, v). addFlag_resume cc cid v) ms s) = locationCache s"
  "flush (fold (\<lambda>(cid, v). addFlag_resume cc cid v) ms s) = flush s"
  "requestQueue (fold (\<lambda>(cid, v). addFlag_resume cc cid v) ms s) = requestQueue s"
  "isProcessingQueue (fold (\<lambda>(cid, v). addFlag_resume cc cid v) ms s) = isProcessingQueue s"
  "drain_wake (fold (\<lambda>(cid, v). addFlag_resume cc cid v) ms s) = drain_wake s"
  "lastRequestTime (fold (\<lambda>(cid, v). addFlag_resume cc cid v) ms s) = lastRequestTime s"
  "activeRequests (fold (\<lambda>(cid, v). addFlag_resume cc cid v) ms s) = activeRequests s"
  "rateLimitResetTime (fold (\<lambda>(cid, v). addFlag_resume cc cid v) ms s) = rateLimitResetTime s"
  "bridge (fold (\<lambda>(cid, v). addFlag_resume cc cid v) ms s) = bridge s"
  "extensionEnabled (fold (\<lambda>(cid, v). addFlag_resume cc cid v) ms s) = extensionEnabled s"
  "scan_order (fold (\<lambda>(cid, v). addFlag_resume cc cid v) ms s) = scan_order s"
  "next_call (fold (\<lambda>(cid, v). addFlag_resume cc cid v) ms s) = next_call s"
  "microtasks (fold (\<lambda>(cid, v). addFlag_resume cc cid v) ms s) = microtasks s"
  by (induction ms arbitrary: s; simp split: prod.splits)+

lemma run_microtasks_fields [simp]:
  "clock (run_microtasks cc s) = clock s"
  "runtime_ok (run_microtasks cc s) = runtime_ok s"
  "storage (run_microtasks cc s) = storage s"
  "load_pending (run_microtasks cc s) = load_pending s"
  "locationCache (run_microtasks cc s) = locationCache s"
  "flush (run_microtasks cc s) = flush s"
  "requestQueue (run_microtasks cc s) = requestQueue s"
  "isProcessingQueue (run_microtasks cc s) = isProcessingQueue s"
  "drain_wake (run_microtasks cc s) = drain_wake s"
  "lastRequestTime (run_microtasks cc s) = lastRequestTime s"
  "activeRequests (run_microtasks cc s) = activeRequests s"
  "rateLimitResetTime (run_microtasks cc s) = rateLimitResetTime s"
  "bridge (run_microtasks cc s) = bridge s"
  "extensionEnabled (run_microtasks cc s) = extensionEnabled s"
  "scan_order (run_microtasks cc s) = scan_order s"
  "next_call (run_microtasks cc s) = next_call s"
  "microtasks (run_microtasks cc s) = []"
  by (simp_all add: run_microtasks_def)

subsection \<open>The drain moves requests from the queue to the bridge\<close>

lemma drain_loop_lift:
  assumes d: "\<And>s. f (dispatch s) = f s"
    and p: "\<And>s b. f (s\<lparr>isProcessingQueue := b\<rparr>) = f s"
    and w: "\<And>s x. f (s\<lparr>drain_wake := x\<rparr>) = f s"
  shows "f (drain_loop s) = f s"
proof (induction s rule: drain_loop.induct)
  case (1 s)
  show ?case
  proof (cases "requestQueue s \<noteq> [] \<and> activeRequests s < MAX_CONCURRENT_REQUESTS")
    case False
    then show ?thesis by (simp add: drain_loop_exit p)
  next
    case True
    show ?thesis
    proof (cases "clock s - lastRequestTime s < MIN_REQUEST_INTERVAL")
      case t: True
      show ?thesis by (simp add: drain_loop_sleep[OF True t] w)
    next
      case f: False
      show ?thesis using "1.IH"[OF True refl f] by (simp add: drain_loop_dispatch[OF True f] d)
    qed
  qed
qed

lemma processRequestQueue_lift:
  assumes d: "\<And>s. f (dispatch s) = f s"
    and p: "\<And>s b. f (s\<lparr>isProcessingQueue := b\<rparr>) = f s"
    and w: "\<And>s x. f (s\<lparr>drain_wake := x\<rparr>) = f s"
    and r: "\<And>s x. f (s\<lparr>rateLimitResetTime := x\<rparr>) = f s"
  shows "f (processRequestQueue s) = f s"
proof -
  let ?s' = "s\<lparr>rateLimitResetTime := (if rateLimitResetTime s > 0 then 0 else rateLimitResetTime s),
                isProcessingQueue := True\<rparr>"
  have "processRequestQueue s = s \<or> processRequestQueue s = drain_loop ?s'"
    unfolding processRequestQueue_def by simp
  moreover have "f (drain_loop ?s') = f s"
    by (simp add: drain_loop_lift[of f, OF d p w] p r)
  ultimately show ?thesis by auto
qed

lemma drain_resume_lift:
  assumes d: "\<And>s. f (dispatch s) = f s"
    and p: "\<And>s b. f (s\<lparr>isProcessingQueue := b\<rparr>) = f s"
    and w: "\<And>s x. f (s\<lparr>drain_wake := x\<rparr>) = f s"
  shows "f (drain_resume s) = f s"
  by (cases "requestQueue s") (simp_all add: drain_resume_def drain_loop_lift[of f, OF d p w] d w)

lemma dispatch_ids:
  "set (ids (dispatch s)) = set (ids s)" "distinct (ids (dispatch s)) = distinct (ids s)"
  by (auto simp: ids_def dispatch_def makeLocationRequest_def split: list.splits)

lemma dispatch_outstanding: "set (outstanding (dispatch s)) = set (outstanding s)"
proof (cases "requestQueue s")
  case Nil
  then show ?thesis by (simp add: dispatch_def)
next
  case (Cons x xs)
  obtain c n where x: "x = (c, n)" by (cases x)
  show ?thesis
    by (simp add: outstanding_def dispatch_def makeLocationRequest_def pending_def Cons x)
qed

lemma processRequestQueue_ids_set [simp]: "set (ids (processRequestQueue s)) = set (ids s)"
  by (rule processRequestQueue_lift) (simp_all add: dispatch_ids, simp_all add: ids_def)

lemma processRequestQueue_ids_distinct [simp]:
  "distinct (ids (processRequestQueue s)) = distinct (ids s)"
  by (rule processRequestQueue_lift) (simp_all add: dispatch_ids, simp_all add: ids_def)

lemma processRequestQueue_outstanding [simp]:
  "set (outstanding (processRequestQueue s)) = set (outstanding s)"
  by (rule processRequestQueue_lift) (simp_all add: dispatch_outstanding, simp_all add: outstanding_def)

lemma drain_resume_ids_set [simp]: "set (ids (drain_resume s)) = set (ids s)"
  by (rule drain_resume_lift) (simp_all add: dispatch_ids, simp_all add: ids_def)

lemma drain_resume_ids_distinct [simp]: "distinct (ids (drain_resume s)) = distinct (ids s)"
  by (rule drain_resume_lift) (simp_all add: dispatch_ids, simp_all add: ids_def)

lemma drain_resume_outstanding [simp]: "set (outstanding (drain_resume s)) = set (outstanding s)"
  by (rule drain_resume_lift) (simp_all add: dispatch_outstanding, simp_all add: outstanding_def)

lemma processRequestQueue_ids_inv [simp]: "ids_inv (processRequestQueue s) = ids_inv s"
  by (simp add: ids_inv_def)

lemma drain_resume_ids_inv [simp]: "ids_inv (drain_resume s) = ids_inv s"
  by (simp add: ids_inv_def)

subsection \<open>Identifiers of requests\<close>

lemma addFlagToUsername_ids_inv: "ids_inv s \<Longrightarrow> ids_inv (addFlagToUsername nid u s)"
  by (simp add: addFlagToUsername_def Let_def getUserLocation_def split: option.splits)
     (auto simp: ids_inv_def ids_def less_Suc_eq)

subsection \<open>Updating one request of the bridge\<close>

lemma find_in: "find P rs = Some r \<Longrightarrow> r \<in> set rs \<and> P r"
  by (induction rs) (auto split: if_splits)

lemma find_none: "find P rs = None \<Longrightarrow> \<forall>r\<in>set rs. \<not> P r"
  by (induction rs) (auto split: if_splits)

lemma find_distinct:
  "distinct (map req_id rs) \<Longrightarrow> r \<in> set rs \<Longrightarrow> find (\<lambda>x. req_id x = req_id r) rs = Some r"
  by (induction rs) force+

lemma find_upd:
  "(\<And>x. req_id (f x) = req_id x) \<Longrightarrow>
   find (\<lambda>x. req_id x = rid) (map (\<lambda>r. if req_id r = rid then f r else r) rs) =
   map_option f (find (\<lambda>x. req_id x = rid) rs)"
  by (induction rs) auto

lemma upd_absent:
  "rid \<notin> req_id ` set rs \<Longrightarrow> map (\<lambda>r. if req_id r = rid then f r else r) rs = rs"
  by (induction rs) auto

lemma upd_count_settle:
  "distinct (map req_id rs) \<Longrightarrow> find (\<lambda>x. req_id x = rid) rs = Some r \<Longrightarrow> pending r \<Longrightarrow>
   \<not> pending (f r) \<Longrightarrow>
   int (length (filter pending (map (\<lambda>r. if req_id r = rid then f r else r) rs))) =
   int (length (filter pending rs)) - 1"
proof (induction rs)
  case Nil
  then show ?case by simp
next
  case (Cons a rs)
  show ?case
  proof (cases "req_id a = rid")
    case True
    with Cons.prems have ar: "a = r" and ab: "rid \<notin> req_id ` set rs" by auto
    show ?thesis using True Cons.prems(3,4) by (simp add: upd_absent[OF ab] ar)
  next
    case False
    with Cons show ?thesis by simp
  qed
qed

lemma upd_count_same:
  "(\<And>x. pending (f x) = pending x) \<Longrightarrow>
   filter pending (map (\<lambda>r. if req_id r = rid then f r else r) rs) =
   map (\<lambda>r. if req_id r = rid then f r else r) (filter pending rs)"
  by (induction rs) auto

lemma upd_started:
  "(\<And>x. started (f x) = started x) \<Longrightarrow>
   map started (map (\<lambda>r. if req_id r = rid then f r else r) rs) = map started rs"
  by (induction rs) auto

lemma upd_req_id:
  "(\<And>x. req_id (f x) = req_id x) \<Longrightarrow>
   map req_id (map (\<lambda>r. if req_id r = rid then f r else r) rs) = map req_id rs"
  by (induction rs) auto

lemma upd_upd:
  "(\<And>x. req_id (f x) = req_id x) \<Longrightarrow>
   map (\<lambda>r. if req_id r = rid then g r else r) (map (\<lambda>r. if req_id r = rid then f r else r) rs) =
   map (\<lambda>r. if req_id r = rid then g (f r) else r) rs"
  by (induction rs) auto

subsection \<open>What a response and a timeout do to the bridge\<close>

lemma handler_skip:
  "find (\<lambda>x. req_id x = rid) (bridge s) = None \<Longrightarrow> handler cc rid loc rl s = s"
  "find (\<lambda>x. req_id x = rid) (bridge s) = Some r \<Longrightarrow> \<not> listening r \<Longrightarrow> handler cc rid loc rl s = s"
  by (simp_all add: handler_def)

lemma handler_bridge:
  assumes f: "find (\<lambda>x. req_id x = rid) (bridge s) = Some r" and l: "listening r"
    and p: "promise r = Pending"
  shows "bridge (handler cc rid loc rl s) =
           map (\<lambda>x. if req_id x = rid then x\<lparr>listening := False, promise := Fulfilled (or_null loc)\<rparr> else x)
             (bridge s)"
    and "activeRequests (handler cc rid loc rl s) = activeRequests s - 1"
proof -
  let ?s1 = "upd_req rid (\<lambda>r. r\<lparr>listening := False\<rparr>) s"
  let ?s2 = "if \<not> rl then saveCacheEntry (req_name r) (or_null loc) ?s1 else ?s1"
  have b2: "bridge ?s2 = map (\<lambda>x. if req_id x = rid then x\<lparr>listening := False\<rparr> else x) (bridge s)"
    by (simp add: upd_req_def)
  have f2: "find (\<lambda>x. req_id x = rid) (bridge ?s2) = Some (r\<lparr>listening := False\<rparr>)"
    unfolding b2 by (subst find_upd) (simp_all add: f)
  have h: "handler cc rid loc rl s = resolve_req cc rid (or_null loc) ?s2"
    using f l by (simp add: handler_def Let_def)
  have a2: "activeRequests ?s2 = activeRequests s" by simp
  show "bridge (handler cc rid loc rl s) =
           map (\<lambda>x. if req_id x = rid then x\<lparr>listening := False, promise := Fulfilled (or_null loc)\<rparr> else x)
             (bridge s)"
    unfolding h resolve_req_def f2 using p
    by (simp add: Let_def) (simp add: upd_req_def b2 upd_upd)
  show "activeRequests (handler cc rid loc rl s) = activeRequests s - 1"
    unfolding h resolve_req_def f2 using p a2
    by (simp add: Let_def)
qed

lemma request_timeout_skip:
  "find (\<lambda>x. req_id x = rid) (bridge s) = None \<Longrightarrow> request_timeout cc rid s = s"
  "find (\<lambda>x. req_id x = rid) (bridge s) = Some r \<Longrightarrow> \<not> timer_armed r \<Longrightarrow> request_timeout cc rid s = s"
  by (simp_all add: request_timeout_def)

lemma request_timeout_bridge:
  assumes f: "find (\<lambda>x. req_id x = rid) (bridge s) = Some r" and l: "timer_armed r"
  shows "bridge (request_timeout cc rid s) =
           map (\<lambda>x. if req_id x = rid
                     then x\<lparr>listening := False, timer_armed := False,
                            promise := (if promise r = Pending then Fulfilled None else promise x)\<rparr>
                     else x)
             (bridge s)"
    and "activeRequests (request_timeout cc rid s) =
           (if promise r = Pending then activeRequests s - 1 else activeRequests s)"
proof -
  let ?s1 = "upd_req rid (\<lambda>r. r\<lparr>listening := False, timer_armed := False\<rparr>) s"
  have b1: "bridge ?s1 = map (\<lambda>x. if req_id x = rid then x\<lparr>listening := False, timer_armed := False\<rparr> else x) (bridge s)"
    by (simp add: upd_req_def)
  have f1: "find (\<lambda>x. req_id x = rid) (bridge ?s1) = Some (r\<lparr>listening := False, timer_armed := False\<rparr>)"
    unfolding b1 by (subst find_upd) (simp_all add: f)
  have h: "request_timeout cc rid s = resolve_req cc rid None ?s1"
    using f l by (simp add: request_timeout_def)
  show "bridge (request_timeout cc rid s) =
           map (\<lambda>x. if req_id x = rid
                     then x\<lparr>listening := False, timer_armed := False,
                            promise := (if promise r = Pending then Fulfilled None else promise x)\<rparr>
                     else x)
             (bridge s)"
    unfolding h resolve_req_def f1
    by (simp add: Let_def) (simp add: upd_req_def b1 upd_upd)
  show "activeRequests (request_timeout cc rid s) =
           (if promise r = Pending then activeRequests s - 1 else activeRequests s)"
    unfolding h resolve_req_def f1
    by (simp add: Let_def)
qed

lemma sched_inv_cong:
  "lastRequestTime t = lastRequestTime s \<Longrightarrow> clock t = clock s \<Longrightarrow> bridge t = bridge s \<Longrightarrow>
   activeRequests t = activeRequests s \<Longrightarrow> drain_wake t = drain_wake s \<Longrightarrow>
   isProcessingQueue t = isProcessingQueue s \<Longrightarrow> sched_inv t = sched_inv s"
  unfolding sched_inv_def by (simp cong: option.case_cong)

lemma ids_inv_cong:
  "requestQueue t = requestQueue s \<Longrightarrow> bridge t = bridge s \<Longrightarrow> microtasks t = microtasks s \<Longrightarrow>
   next_call t = next_call s \<Longrightarrow> ids_inv t = ids_inv s"
  by (simp add: ids_inv_def ids_def)

lemma bridge_inv_cong: "bridge t = bridge s \<Longrightarrow> bridge_inv t = bridge_inv s"
  by (simp add: bridge_inv_def)

lemma dispatch_bridge_inv: "bridge_inv (dispatch s) = bridge_inv s"
  by (auto simp: bridge_inv_def dispatch_def makeLocationRequest_def req_ok_def split: list.splits)

lemma processRequestQueue_bridge_inv [simp]: "bridge_inv (processRequestQueue s) = bridge_inv s"
  by (rule processRequestQueue_lift) (simp_all add: dispatch_bridge_inv, simp_all add: bridge_inv_def)

lemma drain_resume_bridge_inv [simp]: "bridge_inv (drain_resume s) = bridge_inv s"
  by (rule drain_resume_lift) (simp_all add: dispatch_bridge_inv, simp_all add: bridge_inv_def)

lemma ids_distinct_bridge: "ids_inv s \<Longrightarrow> distinct (map req_id (bridge s))"
  by (simp add: ids_inv_def ids_def)

lemma sched_inv_settle:
  assumes s: "sched_inv s" and d: "distinct (map req_id (bridge s))"
    and f: "find (\<lambda>x. req_id x = rid) (bridge s) = Some r" and p: "pending r"
    and np: "\<not> pending (g r)" and st: "\<And>x. started (g x) = started x"
    and b: "bridge t = map (\<lambda>x. if req_id x = rid then g x else x) (bridge s)"
    and a: "activeRequests t = activeRequests s - 1"
    and o: "lastRequestTime t = lastRequestTime s" "clock t = clock s"
           "drain_wake t = drain_wake s" "isProcessingQueue t = isProcessingQueue s"
  shows "sched_inv t"
proof -
  have ms: "map started (bridge t) = map started (bridge s)"
    unfolding b by (rule upd_started) (rule st)
  have c: "int (length (filter pending (bridge t))) = int (length (filter pending (bridge s))) - 1"
    unfolding b by (rule upd_count_settle[where f = g, OF d f p np])
  have bnd: "(\<forall>r\<in>set (bridge t). started r \<le> lastRequestTime s) =
             (\<forall>x\<in>set (map started (bridge t)). x \<le> lastRequestTime s)" by simp
  have bnd': "(\<forall>r\<in>set (bridge s). started r \<le> lastRequestTime s) =
             (\<forall>x\<in>set (map started (bridge s)). x \<le> lastRequestTime s)" by simp
  from s have s': "lastRequestTime s \<le> clock s"
    "\<forall>r\<in>set (bridge s). started r \<le> lastRequestTime s"
    "spaced (map started (bridge s))"
    "activeRequests s = int (length (filter pending (bridge s)))"
    "activeRequests s \<le> MAX_CONCURRENT_REQUESTS"
    "(case drain_wake s of None \<Rightarrow> True
      | Some due \<Rightarrow> isProcessingQueue s \<and> lastRequestTime s + MIN_REQUEST_INTERVAL \<le> due \<and>
                    activeRequests s < MAX_CONCURRENT_REQUESTS)"
    by (simp_all add: sched_inv_def)
  have 2: "\<forall>r\<in>set (bridge t). started r \<le> lastRequestTime s"
    unfolding bnd ms using s'(2) unfolding bnd' .
  show ?thesis
    unfolding sched_inv_def o a
    using s'(1,3,4,5,6) 2 c ms by (auto split: option.splits)
qed

lemma sched_inv_same_pending:
  assumes s: "sched_inv s"
    and pe: "\<And>x. pending (g x) = pending x" and st: "\<And>x. started (g x) = started x"
    and b: "bridge t = map (\<lambda>x. if req_id x = rid then g x else x) (bridge s)"
    and o: "activeRequests t = activeRequests s" "lastRequestTime t = lastRequestTime s" "clock t = clock s"
           "drain_wake t = drain_wake s" "isProcessingQueue t = isProcessingQueue s"
  shows "sched_inv t"
proof -
  have ms: "map started (bridge t) = map started (bridge s)"
    unfolding b by (rule upd_started) (rule st)
  have c: "length (filter pending (bridge t)) = length (filter pending (bridge s))"
    unfolding b by (simp add: upd_count_same[of g, OF pe])
  have bnd: "(\<forall>r\<in>set (bridge t). started r \<le> lastRequestTime s) =
             (\<forall>x\<in>set (map started (bridge t)). x \<le> lastRequestTime s)" by simp
  have bnd': "(\<forall>r\<in>set (bridge s). started r \<le> lastRequestTime s) =
             (\<forall>x\<in>set (map started (bridge s)). x \<le> lastRequestTime s)" by simp
  from s have s': "lastRequestTime s \<le> clock s"
    "\<forall>r\<in>set (bridge s). started r \<le> lastRequestTime s"
    "spaced (map started (bridge s))"
    "activeRequests s = int (length (filter pending (bridge s)))"
    "activeRequests s \<le> MAX_CONCURRENT_REQUESTS"
    "(case drain_wake s of None \<Rightarrow> True
      | Some due \<Rightarrow> isProcessingQueue s \<and> lastRequestTime s + MIN_REQUEST_INTERVAL \<le> due \<and>
                    activeRequests s < MAX_CONCURRENT_REQUESTS)"
    by (simp_all add: sched_inv_def)
  have 2: "\<forall>r\<in>set (bridge t). started r \<le> lastRequestTime s"
    unfolding bnd ms using s'(2) unfolding bnd' .
  show ?thesis
    unfolding sched_inv_def o
    using s'(1,3,4,5,6) 2 c ms by (auto split: option.splits)
qed

lemma handler_inv1:
  assumes i: "inv1 s"
  shows "inv1 (handler cc rid loc rl s)"
proof (cases "find (\<lambda>x. req_id x = rid) (bridge s)")
  case None
  then show ?thesis using i by (simp add: handler_skip)
next
  case (Some r)
  show ?thesis
  proof (cases "listening r")
    case False
    then show ?thesis using i Some by (simp add: handler_skip)
  next
    case True
    let ?t = "handler cc rid loc rl s"
    let ?g = "\<lambda>x. x\<lparr>listening := False, promise := Fulfilled (or_null loc)\<rparr>"
    from i have ii: "ids_inv s" "sched_inv s" "bridge_inv s" "microtasks s = []"
      by (simp_all add: inv1_def)
    have rin: "r \<in> set (bridge s)" using find_in[OF Some] by simp
    then have ok: "req_ok r" using ii(3) by (simp add: bridge_inv_def)
    with True have p: "promise r = Pending" by (simp add: req_ok_def)
    note hb = handler_bridge[OF Some True p, of cc loc rl]
    have "ids ?t = ids s" by (simp add: ids_def hb(1) upd_req_id)
    then have 1: "ids_inv ?t" using ii(1) by (simp add: ids_inv_def)
    have 2: "sched_inv ?t"
      by (rule sched_inv_settle[OF ii(2) ids_distinct_bridge[OF ii(1)] Some, where g = ?g])
         (simp_all add: pending_def p hb)
    have 3: "bridge_inv ?t"
      using ii(3) unfolding bridge_inv_def hb(1) by (auto simp: req_ok_def)
    show ?thesis using 1 2 3 ii(4) by (simp add: inv1_def)
  qed
qed

lemma request_timeout_inv1:
  assumes i: "inv1 s"
  shows "inv1 (request_timeout cc rid s)"
proof (cases "find (\<lambda>x. req_id x = rid) (bridge s)")
  case None
  then show ?thesis using i by (simp add: request_timeout_skip)
next
  case (Some r)
  show ?thesis
  proof (cases "timer_armed r")
    case False
    then show ?thesis using i Some by (simp add: request_timeout_skip)
  next
    case True
    let ?t = "request_timeout cc rid s"
    let ?g = "\<lambda>x. x\<lparr>listening := False, timer_armed := False,
                   promise := (if promise r = Pending then Fulfilled None else promise x)\<rparr>"
    from i have ii: "ids_inv s" "sched_inv s" "bridge_inv s" "microtasks s = []"
      by (simp_all add: inv1_def)
    have d: "distinct (map req_id (bridge s))" by (rule ids_distinct_bridge[OF ii(1)])
    have rin: "r \<in> set (bridge s)" and rid: "req_id r = rid" using find_in[OF Some] by simp_all
    have uniq: "\<And>x. x \<in> set (bridge s) \<Longrightarrow> req_id x = rid \<Longrightarrow> x = r"
      using find_distinct[OF d] Some by fastforce
    note hb = request_timeout_bridge[OF Some True, of cc]
    have "ids ?t = ids s" by (simp add: ids_def hb(1) upd_req_id)
    then have 1: "ids_inv ?t" using ii(1) by (simp add: ids_inv_def)
    have 2: "sched_inv ?t"
    proof (cases "promise r = Pending")
      case p: True
      show ?thesis
        by (rule sched_inv_settle[OF ii(2) d Some, where g = ?g])
           (simp_all add: pending_def p hb)
    next
      case np: False
      show ?thesis
        by (rule sched_inv_same_pending[OF ii(2), where g = ?g and rid = rid])
           (simp_all add: pending_def np hb)
    qed
    have 3: "bridge_inv ?t"
      unfolding bridge_inv_def hb(1)
    proof
      fix y assume "y \<in> set (map (\<lambda>x. if req_id x = rid then ?g x else x) (bridge s))"
      then obtain x where x: "x \<in> set (bridge s)" and y: "y = (if req_id x = rid then ?g x else x)"
        by auto
      have okx: "req_ok x" using ii(3) x by (simp add: bridge_inv_def)
      show "req_ok y"
      proof (cases "req_id x = rid")
        case False
        then show ?thesis using okx y by simp
      next
        case t: True
        then have "x = r" using uniq x by simp
        then show ?thesis using okx y t by (auto simp: req_ok_def)
      qed
    qed
    show ?thesis using 1 2 3 ii(4) by (simp add: inv1_def)
  qed
qed

lemma addFlagToUsername_inv1':
  assumes "ids_inv s" "sched_inv s" "bridge_inv s"
  shows "ids_inv (addFlagToUsername nid u s) \<and> sched_inv (addFlagToUsername nid u s) \<and>
         bridge_inv (addFlagToUsername nid u s)"
proof -
  have s: "\<And>t. sched_inv t \<Longrightarrow> sched_inv (getUserLocation c u t)" for c
    by (auto simp: getUserLocation_def split: option.splits
        intro!: processRequestQueue_sched elim: sched_inv_cong[THEN iffD2, rotated -1])
  have b: "\<And>t. bridge_inv t \<Longrightarrow> bridge_inv (getUserLocation c u t)" for c
    by (auto simp: getUserLocation_def bridge_inv_def[of "_\<lparr>requestQueue := _\<rparr>"]
          bridge_inv_def[of "_\<lparr>microtasks := _\<rparr>"] split: option.splits)
       (simp_all add: bridge_inv_def)
  show ?thesis
    using assms addFlagToUsername_ids_inv[OF assms(1), of nid u]
    by (auto simp: addFlagToUsername_def Let_def split: option.splits
        intro!: s b elim: sched_inv_cong[THEN iffD2, rotated -1] bridge_inv_cong[THEN iffD2, rotated -1])
qed

lemma visit_inv1':
  assumes "ids_inv s \<and> sched_inv s \<and> bridge_inv s"
  shows "ids_inv (visit nid s) \<and> sched_inv (visit nid s) \<and> bridge_inv (visit nid s)"
  using assms addFlagToUsername_inv1'[of s nid]
  by (auto simp: visit_def split: option.splits)

lemma fold_visit_inv1':
  "ids_inv s \<and> sched_inv s \<and> bridge_inv s \<Longrightarrow>
   ids_inv (fold visit xs s) \<and> sched_inv (fold visit xs s) \<and> bridge_inv (fold visit xs s)"
proof (induction xs arbitrary: s)
  case Nil
  then show ?case by simp
next
  case (Cons x xs)
  from Cons.IH[OF visit_inv1'[OF Cons.prems]] show ?case by simp
qed

lemma processUsernames_inv1':
  "ids_inv s \<and> sched_inv s \<and> bridge_inv s \<Longrightarrow>
   ids_inv (processUsernames s) \<and> sched_inv (processUsernames s) \<and> bridge_inv (processUsernames s)"
  unfolding processUsernames_def using fold_visit_inv1' by simp

lemma run_microtasks_inv1:
  assumes "ids_inv s \<and> sched_inv s \<and> bridge_inv s"
  shows "inv1 (run_microtasks cc s)"
proof -
  have "ids (run_microtasks cc s) = map fst (requestQueue s) @ map req_id (bridge s)"
    by (simp add: ids_def)
  then have 1: "ids_inv (run_microtasks cc s)"
    using assms by (auto simp: ids_inv_def ids_def)
  have 2: "sched_inv (run_microtasks cc s)"
    using assms by (simp add: sched_inv_cong[of "run_microtasks cc s" s])
  have 3: "bridge_inv (run_microtasks cc s)"
    using assms by (simp add: bridge_inv_cong[of "run_microtasks cc s" s])
  show ?thesis using 1 2 3 by (simp add: inv1_def)
qed

lemma step_inv1: "inv1 s \<Longrightarrow> inv1 (step cc e s)"
proof (cases e)
  case (Tick d)
  assume "inv1 s"
  then show ?thesis unfolding Tick
    by (auto simp: inv1_def ids_inv_def ids_def sched_inv_def bridge_inv_def split: option.splits)
next
  case Scan
  assume "inv1 s"
  then have "ids_inv s \<and> sched_inv s \<and> bridge_inv s" by (simp add: inv1_def)
  from run_microtasks_inv1[OF processUsernames_inv1'[OF this]] show ?thesis by (simp add: Scan)
next
  case DrainTimer
  assume "inv1 s"
  then show ?thesis by (simp add: DrainTimer inv1_def processRequestQueue_sched)
next
  case DrainWakes
  assume "inv1 s"
  then show ?thesis
    by (auto simp: DrainWakes inv1_def drain_resume_sched split: option.splits)
next
  case (Response rid loc rl)
  assume "inv1 s"
  then show ?thesis by (simp add: Response handler_inv1)
next
  case (Timeout rid)
  assume "inv1 s"
  then show ?thesis by (simp add: Timeout request_timeout_inv1)
qed (auto simp: inv1_def ids_inv_def ids_def sched_inv_def bridge_inv_def cong: option.case_cong)

lemma run_inv1: "inv1 s \<Longrightarrow> inv1 (run cc es s)"
  unfolding run_def by (induction es arbitrary: s) (simp_all add: step_inv1)

lemma init_inv1: "inv1 (init now stored enabled page)"
  by (simp add: inv1_def init_def ids_inv_def ids_def sched_inv_def bridge_inv_def
      MAX_CONCURRENT_REQUESTS_def)

lemma reachable_inv1: "inv1 (run cc es (init now stored enabled page))"
  by (rule run_inv1[OF init_inv1])

lemma place_flag_ok: "node_ok n \<Longrightarrow> node_ok (fst (place_flag cc loc n))"
  by (auto simp: place_flag_def node_ok_def split: option.splits)

lemma place_flag_marked: "flagAdded (fst (place_flag cc loc n)) \<noteq> None"
  by (auto simp: place_flag_def split: option.splits)

lemma removeAll_short: "length xs \<le> Suc 0 \<Longrightarrow> length (removeAll x xs) \<le> Suc 0"
  by (cases xs) auto

lemma addFlag_resume_document:
  "document (addFlag_resume cc cid loc s) =
     (case calls s cid of
        Some (Awaiting nid screenName b) \<Rightarrow>
          (case document s nid of
             None \<Rightarrow> document s
           | Some n \<Rightarrow>
               (document s)(nid \<mapsto> fst (place_flag cc loc
                   (if b \<and> cid \<in> set (shimmers n)
                    then n\<lparr>shimmers := removeAll cid (shimmers n)\<rparr> else n))))
      | _ \<Rightarrow> document s)"
  by (simp add: addFlag_resume_def Let_def split: option.splits call.splits prod.splits)

lemma addFlag_resume_doc_inv: "doc_inv s \<Longrightarrow> doc_inv (addFlag_resume cc cid loc s)"
proof -
  assume a: "doc_inv s"
  have k: "\<And>n. node_ok n \<Longrightarrow> node_ok (n\<lparr>shimmers := removeAll cid (shimmers n)\<rparr>)"
    by (auto simp: node_ok_def removeAll_short)
  show ?thesis
    using a unfolding doc_inv_def addFlag_resume_document
    by (auto split: option.splits call.splits intro!: place_flag_ok k)
qed

lemma waiter_resume_doc_inv: "doc_inv s \<Longrightarrow> doc_inv (waiter_resume cid s)"
  by (auto simp: waiter_resume_def doc_inv_def node_ok_def Let_def split: option.splits call.splits)

lemma visit_doc_inv: "doc_inv s \<Longrightarrow> doc_inv (visit nid s)"
  by (auto simp: visit_def addFlagToUsername_def doc_inv_def node_ok_def Let_def
      split: option.splits)

lemma fold_visit_doc_inv: "doc_inv s \<Longrightarrow> doc_inv (fold visit xs s)"
  by (induction xs arbitrary: s) (simp_all add: visit_doc_inv)

lemma fold_resume_doc_inv:
  "doc_inv s \<Longrightarrow> doc_inv (fold (\<lambda>(cid, v). addFlag_resume cc cid v) ms s)"
  by (induction ms arbitrary: s) (auto simp: addFlag_resume_doc_inv)

lemma doc_inv_cong: "document t = document s \<Longrightarrow> doc_inv t = doc_inv s"
  by (simp add: doc_inv_def)

lemma resolve_req_doc_inv: "doc_inv s \<Longrightarrow> doc_inv (resolve_req cc rid v s)"
proof -
  assume a: "doc_inv s"
  have "\<And>f. doc_inv (upd_req rid f s)" using a by (simp add: doc_inv_def)
  then have "\<And>f. doc_inv (addFlag_resume cc rid v (upd_req rid f s))"
    by (rule addFlag_resume_doc_inv)
  then have "\<And>f x. doc_inv ((addFlag_resume cc rid v (upd_req rid f s))\<lparr>activeRequests := x\<rparr>)"
    by (simp add: doc_inv_def)
  then show ?thesis using a
    by (simp add: resolve_req_def Let_def split: option.splits)
qed

lemma step_doc_inv: "doc_inv s \<Longrightarrow> doc_inv (step cc e s)"
proof (cases e)
  case Scan
  assume "doc_inv s"
  then have "doc_inv (processUsernames s)"
    by (simp add: processUsernames_def fold_visit_doc_inv)
  then have "doc_inv ((processUsernames s)\<lparr>microtasks := []\<rparr>)" by (simp add: doc_inv_def)
  then show ?thesis unfolding Scan by (simp add: run_microtasks_def fold_resume_doc_inv)
next
  case (Response rid loc rl)
  assume a: "doc_inv s"
  have "\<And>t. doc_inv t \<Longrightarrow> doc_inv (resolve_req cc rid (or_null loc) t)"
    by (rule resolve_req_doc_inv)
  moreover have "\<And>f. doc_inv (upd_req rid f s)" using a by (simp add: doc_inv_def)
  moreover have "\<And>f u l. doc_inv (saveCacheEntry u l (upd_req rid f s))" using a by (simp add: doc_inv_def)
  ultimately show ?thesis unfolding Response
    using a by (simp add: handler_def Let_def split: option.splits)
next
  case (Timeout rid)
  assume a: "doc_inv s"
  have "\<And>f. doc_inv (upd_req rid f s)" using a by (simp add: doc_inv_def)
  then show ?thesis unfolding Timeout
    using a by (simp add: request_timeout_def resolve_req_doc_inv split: option.splits)
next
  case (WaiterWakes cid)
  assume "doc_inv s"
  then show ?thesis by (simp add: WaiterWakes waiter_resume_doc_inv)
next
  case (PageInsert pos nid n)
  assume "doc_inv s"
  then show ?thesis
    by (auto simp: PageInsert page_insert_def doc_inv_def node_ok_def fresh_def)
next
  case (Toggle b)
  assume "doc_inv s"
  then show ?thesis
    by (auto simp: Toggle toggle_def removeAllFlags_def doc_inv_def node_ok_def Let_def)
qed (auto simp: doc_inv_def split: option.splits)

lemma run_doc_inv: "doc_inv s \<Longrightarrow> doc_inv (run cc es s)"
  unfolding run_def by (induction es arbitrary: s) (simp_all add: step_doc_inv)

lemma init_doc_inv: "doc_inv (init now stored enabled page)"
  by (auto simp: doc_inv_def init_def node_ok_def fresh_def dest!: map_of_SomeD)

subsection \<open>What the entry part of the annotator does\<close>

lemma getUserLocation_effect:
  "locationCache s u = Some (Some l) \<Longrightarrow>
     getUserLocation cid u s = s\<lparr>microtasks := microtasks s @ [(cid, Some l)]\<rparr>"
  "locationCache s u = None \<or> locationCache s u = Some None \<Longrightarrow>
     microtasks (getUserLocation cid u s) = microtasks s \<and>
     set (outstanding (getUserLocation cid u s)) = insert (cid, u) (set (outstanding s)) \<and>
     locationCache (getUserLocation cid u s) = (locationCache s)(u := None)"
  by (auto simp: getUserLocation_def outstanding_def[of "_\<lparr>requestQueue := _\<rparr>"]
        outstanding_def[of "_\<lparr>locationCache := _, requestQueue := _\<rparr>"] outstanding_def[of s])

lemma getUserLocation_cache_sub:
  "locationCache (getUserLocation cid u s) x = locationCache s x \<or>
   locationCache (getUserLocation cid u s) x = None"
  by (auto simp: getUserLocation_def split: option.splits)

lemma addFlagToUsername_skip:
  "document s nid = None \<Longrightarrow> addFlagToUsername nid u s = s"
  "document s nid = Some n \<Longrightarrow> flagAdded n = Some FlagTrue \<Longrightarrow> addFlagToUsername nid u s = s"
  by (simp_all add: addFlagToUsername_def)

lemma addFlagToUsername_divert:
  "document s nid = Some n \<Longrightarrow> flagAdded n \<noteq> Some FlagTrue \<Longrightarrow> u \<in> processingUsernames s \<Longrightarrow>
   addFlagToUsername nid u s =
     s\<lparr>calls := (calls s)(next_call s \<mapsto> Sleeping nid), next_call := next_call s + 1\<rparr>"
  by (simp add: addFlagToUsername_def)

lemma addFlagToUsername_lead:
  assumes "document s nid = Some n" "flagAdded n \<noteq> Some FlagTrue" "u \<notin> processingUsernames s"
  shows "document (addFlagToUsername nid u s) =
           (document s)(nid \<mapsto> n\<lparr>flagAdded := Some Processing,
              shimmers := (if has_container n \<and> shimmer_ok n then shimmers n @ [next_call s]
                           else shimmers n)\<rparr>)"
    and "processingUsernames (addFlagToUsername nid u s) = insert u (processingUsernames s)"
    and "calls (addFlagToUsername nid u s) =
           (calls s)(next_call s \<mapsto> Awaiting nid u (has_container n \<and> shimmer_ok n))"
    and "next_call (addFlagToUsername nid u s) = next_call s + 1"
  using assms by (simp_all add: addFlagToUsername_def Let_def)

lemma addFlagToUsername_lead_request:
  assumes "document s nid = Some n" "flagAdded n \<noteq> Some FlagTrue" "u \<notin> processingUsernames s"
  shows "locationCache s u = Some (Some l) \<Longrightarrow>
           microtasks (addFlagToUsername nid u s) = microtasks s @ [(next_call s, Some l)] \<and>
           set (outstanding (addFlagToUsername nid u s)) = set (outstanding s)"
    and "locationCache s u = None \<or> locationCache s u = Some None \<Longrightarrow>
           microtasks (addFlagToUsername nid u s) = microtasks s \<and>
           set (outstanding (addFlagToUsername nid u s)) = insert (next_call s, u) (set (outstanding s))"
proof -
  define t where "t = s\<lparr>document := (document s)(nid \<mapsto> n\<lparr>flagAdded := Some Processing,
              shimmers := (if has_container n \<and> shimmer_ok n then shimmers n @ [next_call s]
                           else shimmers n)\<rparr>),
              processingUsernames := insert u (processingUsernames s),
              calls := (calls s)(next_call s \<mapsto> Awaiting nid u (has_container n \<and> shimmer_ok n)),
              next_call := next_call s + 1\<rparr>"
  have e: "addFlagToUsername nid u s = getUserLocation (next_call s) u t"
    using assms by (simp add: addFlagToUsername_def Let_def t_def)
  have o: "outstanding t = outstanding s" "microtasks t = microtasks s"
    "locationCache t = locationCache s"
    by (simp_all add: outstanding_def t_def)
  show "locationCache s u = Some (Some l) \<Longrightarrow>
           microtasks (addFlagToUsername nid u s) = microtasks s @ [(next_call s, Some l)] \<and>
           set (outstanding (addFlagToUsername nid u s)) = set (outstanding s)"
  proof -
    assume "locationCache s u = Some (Some l)"
    then have "getUserLocation (next_call s) u t = t\<lparr>microtasks := microtasks t @ [(next_call s, Some l)]\<rparr>"
      by (intro getUserLocation_effect(1)) (simp add: o)
    then show ?thesis unfolding e using o by (simp add: outstanding_def)
  qed
  show "locationCache s u = None \<or> locationCache s u = Some None \<Longrightarrow>
           microtasks (addFlagToUsername nid u s) = microtasks s \<and>
           set (outstanding (addFlagToUsername nid u s)) = insert (next_call s, u) (set (outstanding s))"
    unfolding e using getUserLocation_effect(2)[of t u "next_call s"] by (simp add: o)
qed

subsection \<open>Elements no suspended call will write to\<close>

lemma visit_stuck:
  assumes "stuck M n0 nid s"
  shows "stuck M n0 nid (visit k s)"
proof -
  from assms obtain m where m: "m \<in> M" "document s nid = Some (n0\<lparr>flagAdded := Some m\<rparr>)"
    and q: "quiet' nid s" by (auto simp: stuck_def)
  show ?thesis
  proof (cases "k = nid")
    case True
    then have "visit k s = s" using m by (simp add: visit_def)
    then show ?thesis using assms by simp
  next
    case False
    show ?thesis
    proof (cases "document s k")
      case None
      then show ?thesis using assms by (simp add: visit_def)
    next
      case (Some n)
      show ?thesis
      proof (cases "flagAdded n = None \<and> extracted n \<noteq> None")
        case f: False
        then have "visit k s = s" using Some by (auto simp: visit_def split: option.splits)
        then show ?thesis using assms by simp
      next
        case t: True
        then obtain u where u: "extracted n = Some u" by auto
        have v: "visit k s = addFlagToUsername k u s" using Some t u by (simp add: visit_def)
        have nt: "flagAdded n \<noteq> Some FlagTrue" using t by simp
        show ?thesis
        proof (cases "u \<in> processingUsernames s")
          case True
          show ?thesis unfolding v addFlagToUsername_divert[OF Some nt True]
            using m q by (auto simp: stuck_def quiet'_def)
        next
          case nin: False
          note l = addFlagToUsername_lead[OF Some nt nin]
          show ?thesis unfolding v stuck_def quiet'_def l
            using m q False by (auto simp: quiet'_def)
        qed
      qed
    qed
  qed
qed

lemma fold_visit_stuck: "stuck M n0 nid s \<Longrightarrow> stuck M n0 nid (fold visit xs s)"
  by (induction xs arbitrary: s) (simp_all add: visit_stuck)

lemma addFlag_resume_calls:
  "calls (addFlag_resume cc cid loc s) =
     (case calls s cid of Some (Awaiting n u b) \<Rightarrow> (calls s)(cid := None) | _ \<Rightarrow> calls s)"
  by (simp add: addFlag_resume_def Let_def split: option.splits call.splits prod.splits)

lemma addFlag_resume_stuck:
  assumes "stuck M n0 nid s"
  shows "stuck M n0 nid (addFlag_resume cc cid loc s)"
proof -
  from assms obtain m where m: "m \<in> M" "document s nid = Some (n0\<lparr>flagAdded := Some m\<rparr>)"
    and q: "quiet' nid s" by (auto simp: stuck_def)
  have d: "document (addFlag_resume cc cid loc s) nid = document s nid"
    using q unfolding addFlag_resume_document quiet'_def
    by (auto split: option.splits call.splits)
  have c: "quiet' nid (addFlag_resume cc cid loc s)"
    using q unfolding addFlag_resume_calls quiet'_def
    by (auto split: option.splits call.splits)
  show ?thesis unfolding stuck_def using m d c by auto
qed

lemma fold_resume_stuck:
  "stuck M n0 nid s \<Longrightarrow> stuck M n0 nid (fold (\<lambda>(cid, v). addFlag_resume cc cid v) ms s)"
  by (induction ms arbitrary: s) (auto simp: addFlag_resume_stuck)

lemma stuck_cong: "document t = document s \<Longrightarrow> calls t = calls s \<Longrightarrow> stuck M n0 nid t = stuck M n0 nid s"
  by (simp add: stuck_def quiet'_def)

lemma resolve_req_stuck: "stuck M n0 nid s \<Longrightarrow> stuck M n0 nid (resolve_req cc rid v s)"
proof -
  assume a: "stuck M n0 nid s"
  have "\<And>f. stuck M n0 nid (upd_req rid f s)" using a by (simp add: stuck_def quiet'_def)
  then have "\<And>f. stuck M n0 nid (addFlag_resume cc rid v (upd_req rid f s))"
    by (rule addFlag_resume_stuck)
  then have "\<And>f x. stuck M n0 nid ((addFlag_resume cc rid v (upd_req rid f s))\<lparr>activeRequests := x\<rparr>)"
    by (simp add: stuck_def quiet'_def)
  then show ?thesis using a
    by (simp add: resolve_req_def Let_def split: option.splits)
qed

lemma waiter_resume_document:
  "document (waiter_resume cid s) =
     (case calls s cid of
        Some (Sleeping k) \<Rightarrow>
          (case document s k of
             None \<Rightarrow> document s
           | Some n \<Rightarrow> if flagAdded n = Some FlagTrue then document s
                       else (document s)(k \<mapsto> n\<lparr>flagAdded := Some Waiting\<rparr>))
      | _ \<Rightarrow> document s)"
  by (simp add: waiter_resume_def Let_def split: option.splits call.splits)

lemma waiter_resume_calls:
  "calls (waiter_resume cid s) =
     (case calls s cid of Some (Sleeping k) \<Rightarrow> (calls s)(cid := None) | _ \<Rightarrow> calls s)"
  by (simp add: waiter_resume_def Let_def split: option.splits call.splits)

lemma waiter_resume_stuck:
  assumes "stuck M n0 nid s" "Waiting \<in> M"
  shows "stuck M n0 nid (waiter_resume cid s)"
proof -
  from assms obtain m where m: "m \<in> M" "document s nid = Some (n0\<lparr>flagAdded := Some m\<rparr>)"
    and q: "quiet' nid s" by (auto simp: stuck_def)
  have c: "quiet' nid (waiter_resume cid s)"
    using q unfolding waiter_resume_calls quiet'_def
    by (auto split: option.splits call.splits)
  have "document (waiter_resume cid s) nid = Some (n0\<lparr>flagAdded := Some m\<rparr>) \<or>
        document (waiter_resume cid s) nid = Some (n0\<lparr>flagAdded := Some Waiting\<rparr>)"
    using m(2) unfolding waiter_resume_document
    by (auto split: option.splits call.splits)
  then show ?thesis unfolding stuck_def using m(1) assms(2) c by auto
qed

lemma step_stuck:
  assumes s: "stuck M n0 nid s" and w: "Waiting \<in> M" and e: "e \<noteq> Toggle False"
  shows "stuck M n0 nid (step cc e s)"
proof (cases e)
  case Scan
  from s have "stuck M n0 nid (processUsernames s)"
    by (simp add: processUsernames_def fold_visit_stuck)
  then have "stuck M n0 nid ((processUsernames s)\<lparr>microtasks := []\<rparr>)"
    by (simp add: stuck_def quiet'_def)
  then show ?thesis unfolding Scan by (simp add: run_microtasks_def fold_resume_stuck)
next
  case (Response rid loc rl)
  have "\<And>f. stuck M n0 nid (upd_req rid f s)" using s by (simp add: stuck_def quiet'_def)
  moreover have "\<And>f u l. stuck M n0 nid (saveCacheEntry u l (upd_req rid f s))"
    using s by (simp add: stuck_def quiet'_def)
  ultimately show ?thesis unfolding Response
    using s by (simp add: handler_def Let_def resolve_req_stuck split: option.splits)
next
  case (Timeout rid)
  have "\<And>f. stuck M n0 nid (upd_req rid f s)" using s by (simp add: stuck_def quiet'_def)
  then show ?thesis unfolding Timeout
    using s by (simp add: request_timeout_def resolve_req_stuck split: option.splits)
next
  case (WaiterWakes cid)
  then show ?thesis using s w by (simp add: waiter_resume_stuck)
next
  case (PageInsert pos k n)
  from s obtain m where m: "m \<in> M" "document s nid = Some (n0\<lparr>flagAdded := Some m\<rparr>)"
    and q: "quiet' nid s" by (auto simp: stuck_def)
  have "document (page_insert pos k n s) nid = document s nid"
    using m(2) by (auto simp: page_insert_def)
  moreover have "quiet' nid (page_insert pos k n s)" using q by (simp add: quiet'_def)
  ultimately show ?thesis unfolding PageInsert stuck_def using m by auto
next
  case (Toggle b)
  with e have "b" by simp
  then show ?thesis using s by (simp add: Toggle toggle_def stuck_def quiet'_def)
qed (use s in \<open>simp_all add: stuck_def quiet'_def split: option.splits\<close>)

lemma run_stuck:
  "stuck M n0 nid s \<Longrightarrow> Waiting \<in> M \<Longrightarrow> Toggle False \<notin> set es \<Longrightarrow> stuck M n0 nid (run cc es s)"
  unfolding run_def by (induction es arbitrary: s) (auto simp: step_stuck)

subsection \<open>A marker stays until the reset\<close>

lemma marked_cong: "document t = document s \<Longrightarrow> marked nid t = marked nid s"
  by (simp add: marked_def)

lemma visit_marked: "marked nid s \<Longrightarrow> marked nid (visit k s)"
  by (auto simp: visit_def addFlagToUsername_def marked_def Let_def split: option.splits)

lemma fold_visit_marked: "marked nid s \<Longrightarrow> marked nid (fold visit xs s)"
  by (induction xs arbitrary: s) (simp_all add: visit_marked)

lemma place_flag_marks: "\<exists>y. flagAdded (fst (place_flag cc loc n)) = Some y"
  using place_flag_marked[of cc loc n] by auto

lemma addFlag_resume_marked: "marked nid s \<Longrightarrow> marked nid (addFlag_resume cc cid loc s)"
  unfolding marked_def addFlag_resume_document
  by (auto simp: place_flag_marks split: option.splits call.splits)

lemma fold_resume_marked:
  "marked nid s \<Longrightarrow> marked nid (fold (\<lambda>(cid, v). addFlag_resume cc cid v) ms s)"
  by (induction ms arbitrary: s) (auto simp: addFlag_resume_marked)

lemma resolve_req_marked: "marked nid s \<Longrightarrow> marked nid (resolve_req cc rid v s)"
proof -
  assume a: "marked nid s"
  have "\<And>f. marked nid (upd_req rid f s)" using a by (simp add: marked_def)
  then have "\<And>f. marked nid (addFlag_resume cc rid v (upd_req rid f s))"
    by (rule addFlag_resume_marked)
  then have "\<And>f x. marked nid ((addFlag_resume cc rid v (upd_req rid f s))\<lparr>activeRequests := x\<rparr>)"
    by (simp add: marked_def)
  then show ?thesis using a
    by (simp add: resolve_req_def Let_def split: option.splits)
qed

lemma step_marked:
  assumes s: "marked nid s" and e: "e \<noteq> Toggle False"
  shows "marked nid (step cc e s)"
proof (cases e)
  case Scan
  from s have "marked nid (processUsernames s)"
    by (simp add: processUsernames_def fold_visit_marked)
  then have "marked nid ((processUsernames s)\<lparr>microtasks := []\<rparr>)" by (simp add: marked_def)
  then show ?thesis unfolding Scan by (simp add: run_microtasks_def fold_resume_marked)
next
  case (Response rid loc rl)
  have "\<And>f. marked nid (upd_req rid f s)" using s by (simp add: marked_def)
  moreover have "\<And>f u l. marked nid (saveCacheEntry u l (upd_req rid f s))"
    using s by (simp add: marked_def)
  ultimately show ?thesis unfolding Response
    using s by (simp add: handler_def Let_def resolve_req_marked split: option.splits)
next
  case (Timeout rid)
  have "\<And>f. marked nid (upd_req rid f s)" using s by (simp add: marked_def)
  then show ?thesis unfolding Timeout
    using s by (simp add: request_timeout_def resolve_req_marked split: option.splits)
next
  case (WaiterWakes cid)
  show ?thesis using s unfolding WaiterWakes marked_def
    by (auto simp: waiter_resume_document split: option.splits call.splits)
next
  case (PageInsert pos k n)
  show ?thesis using s unfolding PageInsert marked_def
    by (auto simp: page_insert_def split: option.splits)
next
  case (Toggle b)
  with e have "b" by simp
  then show ?thesis using s by (simp add: Toggle toggle_def marked_def)
qed (use s in \<open>simp_all add: marked_def split: option.splits\<close>)

lemma run_marked: "marked nid s \<Longrightarrow> Toggle False \<notin> set es \<Longrightarrow> marked nid (run cc es s)"
  unfolding run_def by (induction es arbitrary: s) (auto simp: step_marked)

lemma marked_skip: "marked nid s \<Longrightarrow> visit nid s = s"
  by (auto simp: marked_def visit_def split: option.splits)

subsection \<open>Suspended calls and the requests they wait for\<close>

lemma addFlag_resume_processing:
  "processingUsernames (addFlag_resume cc cid loc s) =
     (case calls s cid of Some (Awaiting n u b) \<Rightarrow> processingUsernames s - {u}
      | _ \<Rightarrow> processingUsernames s)"
  by (simp add: addFlag_resume_def Let_def split: option.splits call.splits prod.splits)

lemma resolve_req_annot:
  assumes "find (\<lambda>x. req_id x = rid) (bridge s) = Some r" "promise r = Pending"
  shows "calls (resolve_req cc rid v s) = calls (addFlag_resume cc rid v s)"
    and "document (resolve_req cc rid v s) = document (addFlag_resume cc rid v s)"
    and "processingUsernames (resolve_req cc rid v s) = processingUsernames (addFlag_resume cc rid v s)"
  using assms
  by (simp_all add: resolve_req_def Let_def addFlag_resume_calls addFlag_resume_document
      addFlag_resume_processing split: option.splits call.splits)

lemma handler_annot:
  assumes f: "find (\<lambda>x. req_id x = rid) (bridge s) = Some r" and l: "listening r"
    and p: "promise r = Pending"
  shows "calls (handler cc rid loc rl s) = calls (addFlag_resume cc rid (or_null loc) s)"
    and "document (handler cc rid loc rl s) = document (addFlag_resume cc rid (or_null loc) s)"
    and "processingUsernames (handler cc rid loc rl s) =
         processingUsernames (addFlag_resume cc rid (or_null loc) s)"
proof -
  let ?s1 = "upd_req rid (\<lambda>r. r\<lparr>listening := False\<rparr>) s"
  let ?s2 = "if \<not> rl then saveCacheEntry (req_name r) (or_null loc) ?s1 else ?s1"
  have b2: "bridge ?s2 = map (\<lambda>x. if req_id x = rid then x\<lparr>listening := False\<rparr> else x) (bridge s)"
    by (simp add: upd_req_def)
  have f2: "find (\<lambda>x. req_id x = rid) (bridge ?s2) = Some (r\<lparr>listening := False\<rparr>)"
    unfolding b2 by (subst find_upd) (simp_all add: f)
  have h: "handler cc rid loc rl s = resolve_req cc rid (or_null loc) ?s2"
    using f l by (simp add: handler_def Let_def)
  have p2: "promise (r\<lparr>listening := False\<rparr>) = Pending" using p by simp
  note a = resolve_req_annot[OF f2 p2, of cc "or_null loc"]
  show "calls (handler cc rid loc rl s) = calls (addFlag_resume cc rid (or_null loc) s)"
    unfolding h a by (simp add: addFlag_resume_calls split: option.splits call.splits)
  show "document (handler cc rid loc rl s) = document (addFlag_resume cc rid (or_null loc) s)"
    unfolding h a by (simp add: addFlag_resume_document split: option.splits call.splits)
  show "processingUsernames (handler cc rid loc rl s) =
         processingUsernames (addFlag_resume cc rid (or_null loc) s)"
    unfolding h a by (simp add: addFlag_resume_processing split: option.splits call.splits)
qed

lemma request_timeout_annot:
  assumes f: "find (\<lambda>x. req_id x = rid) (bridge s) = Some r" and l: "timer_armed r"
    and p: "promise r = Pending"
  shows "calls (request_timeout cc rid s) = calls (addFlag_resume cc rid None s)"
    and "document (request_timeout cc rid s) = document (addFlag_resume cc rid None s)"
    and "processingUsernames (request_timeout cc rid s) =
         processingUsernames (addFlag_resume cc rid None s)"
proof -
  let ?s1 = "upd_req rid (\<lambda>r. r\<lparr>listening := False, timer_armed := False\<rparr>) s"
  have b1: "bridge ?s1 = map (\<lambda>x. if req_id x = rid then x\<lparr>listening := False, timer_armed := False\<rparr> else x) (bridge s)"
    by (simp add: upd_req_def)
  have f1: "find (\<lambda>x. req_id x = rid) (bridge ?s1) = Some (r\<lparr>listening := False, timer_armed := False\<rparr>)"
    unfolding b1 by (subst find_upd) (simp_all add: f)
  have h: "request_timeout cc rid s = resolve_req cc rid None ?s1"
    using f l by (simp add: request_timeout_def)
  have p1: "promise (r\<lparr>listening := False, timer_armed := False\<rparr>) = Pending" using p by simp
  note a = resolve_req_annot[OF f1 p1, of cc None]
  show "calls (request_timeout cc rid s) = calls (addFlag_resume cc rid None s)"
    unfolding h a by (simp add: addFlag_resume_calls split: option.splits call.splits)
  show "document (request_timeout cc rid s) = document (addFlag_resume cc rid None s)"
    unfolding h a by (simp add: addFlag_resume_document split: option.splits call.splits)
  show "processingUsernames (request_timeout cc rid s) =
         processingUsernames (addFlag_resume cc rid None s)"
    unfolding h a by (simp add: addFlag_resume_processing split: option.splits call.splits)
qed

lemma request_timeout_settled:
  assumes f: "find (\<lambda>x. req_id x = rid) (bridge s) = Some r" and l: "timer_armed r"
    and p: "promise r \<noteq> Pending"
  shows "calls (request_timeout cc rid s) = calls s"
    and "document (request_timeout cc rid s) = document s"
    and "processingUsernames (request_timeout cc rid s) = processingUsernames s"
proof -
  let ?s1 = "upd_req rid (\<lambda>r. r\<lparr>listening := False, timer_armed := False\<rparr>) s"
  have b1: "bridge ?s1 = map (\<lambda>x. if req_id x = rid then x\<lparr>listening := False, timer_armed := False\<rparr> else x) (bridge s)"
    by (simp add: upd_req_def)
  have f1: "find (\<lambda>x. req_id x = rid) (bridge ?s1) = Some (r\<lparr>listening := False, timer_armed := False\<rparr>)"
    unfolding b1 by (subst find_upd) (simp_all add: f)
  have h: "request_timeout cc rid s = ?s1"
    using f l p by (simp add: request_timeout_def resolve_req_def f1)
  show "calls (request_timeout cc rid s) = calls s" "document (request_timeout cc rid s) = document s"
    "processingUsernames (request_timeout cc rid s) = processingUsernames s"
    unfolding h by simp_all
qed

subsection \<open>Calls are numbered below the counter\<close>

lemma visit_calls_bound: "calls_bound s \<Longrightarrow> calls_bound (visit k s)"
  by (auto simp: visit_def addFlagToUsername_def calls_bound_def Let_def less_Suc_eq
      split: option.splits)

lemma fold_visit_calls_bound: "calls_bound s \<Longrightarrow> calls_bound (fold visit xs s)"
  by (induction xs arbitrary: s) (simp_all add: visit_calls_bound)

lemma addFlag_resume_calls_bound: "calls_bound s \<Longrightarrow> calls_bound (addFlag_resume cc cid v s)"
  unfolding calls_bound_def addFlag_resume_calls by (auto split: option.splits call.splits)

lemma fold_resume_calls_bound:
  "calls_bound s \<Longrightarrow> calls_bound (fold (\<lambda>(cid, v). addFlag_resume cc cid v) ms s)"
  by (induction ms arbitrary: s) (auto simp: addFlag_resume_calls_bound)

lemma resolve_req_calls_bound: "calls_bound s \<Longrightarrow> calls_bound (resolve_req cc rid v s)"
proof -
  assume a: "calls_bound s"
  have "\<And>f. calls_bound (upd_req rid f s)" using a by (simp add: calls_bound_def)
  then have "\<And>f. calls_bound (addFlag_resume cc rid v (upd_req rid f s))"
    by (rule addFlag_resume_calls_bound)
  then have "\<And>f x. calls_bound ((addFlag_resume cc rid v (upd_req rid f s))\<lparr>activeRequests := x\<rparr>)"
    by (simp add: calls_bound_def)
  then show ?thesis using a
    by (simp add: resolve_req_def Let_def split: option.splits)
qed

lemma step_calls_bound: "calls_bound s \<Longrightarrow> calls_bound (step cc e s)"
proof (cases e)
  case Scan
  assume "calls_bound s"
  then have "calls_bound (processUsernames s)"
    by (simp add: processUsernames_def fold_visit_calls_bound)
  then have "calls_bound ((processUsernames s)\<lparr>microtasks := []\<rparr>)" by (simp add: calls_bound_def)
  then show ?thesis unfolding Scan by (simp add: run_microtasks_def fold_resume_calls_bound)
next
  case (Response rid loc rl)
  assume a: "calls_bound s"
  have "\<And>f. calls_bound (upd_req rid f s)" using a by (simp add: calls_bound_def)
  moreover have "\<And>f u l. calls_bound (saveCacheEntry u l (upd_req rid f s))"
    using a by (simp add: calls_bound_def)
  ultimately show ?thesis unfolding Response
    using a by (simp add: handler_def Let_def resolve_req_calls_bound split: option.splits)
next
  case (Timeout rid)
  assume a: "calls_bound s"
  have "\<And>f. calls_bound (upd_req rid f s)" using a by (simp add: calls_bound_def)
  then show ?thesis unfolding Timeout
    using a by (simp add: request_timeout_def resolve_req_calls_bound split: option.splits)
next
  case (WaiterWakes cid)
  assume "calls_bound s"
  then show ?thesis unfolding WaiterWakes calls_bound_def
    by (auto simp: waiter_resume_calls split: option.splits call.splits)
qed (simp_all add: calls_bound_def split: option.splits)

lemma run_calls_bound: "calls_bound s \<Longrightarrow> calls_bound (run cc es s)"
  unfolding run_def by (induction es arbitrary: s) (simp_all add: step_calls_bound)

lemma init_calls_bound: "calls_bound (init now stored enabled page)"
  by (simp add: calls_bound_def init_def)

lemma out_ids: "(cid, u) \<in> set (outstanding s) \<Longrightarrow> cid \<in> set (ids s)"
  by (force simp: outstanding_def ids_def)

lemma out_bound: "ids_inv s \<Longrightarrow> (cid, u) \<in> set (outstanding s) \<Longrightarrow> cid < next_call s"
  using out_ids by (fastforce simp: ids_inv_def)

lemma ids_distinct_qb:
  "ids_inv s \<Longrightarrow> distinct (map fst (requestQueue s) @ map req_id (bridge s))"
  by (auto simp: ids_inv_def ids_def)


lemma micro_out:
  "ids_inv s \<Longrightarrow> (cid, v) \<in> set (microtasks s) \<Longrightarrow> (cid, u) \<notin> set (outstanding s)"
proof
  assume i: "ids_inv s" and m: "(cid, v) \<in> set (microtasks s)" and o: "(cid, u) \<in> set (outstanding s)"
  from m have "cid \<in> set (map fst (microtasks s))" by force
  moreover from o have "cid \<in> set (map fst (requestQueue s) @ map req_id (bridge s))"
    by (force simp: outstanding_def)
  ultimately show False using i by (auto simp: ids_inv_def ids_def)
qed

lemma visit_ids_inv: "ids_inv s \<Longrightarrow> ids_inv (visit k s)"
  by (auto simp: visit_def addFlagToUsername_ids_inv split: option.splits)

lemma fold_visit_ids_inv: "ids_inv s \<Longrightarrow> ids_inv (fold visit xs s)"
  by (induction xs arbitrary: s) (simp_all add: visit_ids_inv)

text \<open>The three ways a visit can go.\<close>

lemma visit_cases:
  obtains (skip) "visit k s = s"
  | (divert) n u where "document s k = Some n" "flagAdded n = None" "extracted n = Some u"
      "u \<in> processingUsernames s"
      "visit k s = s\<lparr>calls := (calls s)(next_call s \<mapsto> Sleeping k), next_call := next_call s + 1\<rparr>"
  | (lead) n u where "document s k = Some n" "flagAdded n = None" "extracted n = Some u"
      "u \<notin> processingUsernames s" "visit k s = addFlagToUsername k u s"
proof (cases "document s k")
  case None
  then show ?thesis using skip by (simp add: visit_def)
next
  case (Some n)
  show ?thesis
  proof (cases "flagAdded n = None \<and> extracted n \<noteq> None")
    case False
    then have "visit k s = s" using Some by (auto simp: visit_def split: option.splits)
    then show ?thesis using skip by simp
  next
    case True
    then obtain u where u: "extracted n = Some u" by auto
    have v: "visit k s = addFlagToUsername k u s" using Some True u by (simp add: visit_def)
    have nt: "flagAdded n \<noteq> Some FlagTrue" using True by simp
    show ?thesis
    proof (cases "u \<in> processingUsernames s")
      case t: True
      show ?thesis using divert[OF Some _ u t] True v addFlagToUsername_divert[OF Some nt t] by simp
    next
      case False
      show ?thesis using lead[OF Some _ u False v] True by simp
    qed
  qed
qed

lemma visit_waits:
  assumes i: "ids_inv s" and w: "waits s"
  shows "waits (visit k s)"
proof (cases k s rule: visit_cases)
  case skip
  then show ?thesis using w by simp
next
  case (divert n u)
  have o: "outstanding (visit k s) = outstanding s" unfolding divert(5) by (simp add: outstanding_def)
  show ?thesis unfolding waits_def o
  proof (intro allI impI)
    fix cid v assume a: "(cid, v) \<in> set (outstanding s)"
    then have "cid \<noteq> next_call s" using out_bound[OF i a] by simp
    then show "\<exists>nid b. calls (visit k s) cid = Some (Awaiting nid v b)"
      using w a unfolding divert(5) by (simp add: waits_def)
  qed
next
  case (lead n u)
  have nt: "flagAdded n \<noteq> Some FlagTrue" using lead(2) by simp
  note l = addFlagToUsername_lead[OF lead(1) nt lead(4)]
  have os: "set (outstanding (visit k s)) \<subseteq> insert (next_call s, u) (set (outstanding s))"
  proof (cases "locationCache s u")
    case None
    then show ?thesis using addFlagToUsername_lead_request(2)[OF lead(1) nt lead(4)] lead(5) by simp
  next
    case (Some a)
    show ?thesis
    proof (cases a)
      case None
      then show ?thesis using Some addFlagToUsername_lead_request(2)[OF lead(1) nt lead(4)] lead(5) by simp
    next
      case (Some l)
      then show ?thesis using \<open>locationCache s u = Some a\<close>
          addFlagToUsername_lead_request(1)[OF lead(1) nt lead(4), of l] lead(5) by auto
    qed
  qed
  show ?thesis unfolding waits_def
  proof (intro allI impI)
    fix cid v assume a: "(cid, v) \<in> set (outstanding (visit k s))"
    show "\<exists>nid b. calls (visit k s) cid = Some (Awaiting nid v b)"
    proof (cases "(cid, v) = (next_call s, u)")
      case True
      then show ?thesis unfolding lead(5) l by simp
    next
      case False
      then have b: "(cid, v) \<in> set (outstanding s)" using a os by auto
      then have "cid \<noteq> next_call s" using out_bound[OF i b] by simp
      then show ?thesis using w b unfolding lead(5) l by (simp add: waits_def)
    qed
  qed
qed

lemma fold_visit_waits: "ids_inv s \<Longrightarrow> waits s \<Longrightarrow> waits (fold visit xs s)"
  by (induction xs arbitrary: s) (simp_all add: visit_waits visit_ids_inv)

lemma waits_shrink:
  assumes "waits s" "set (outstanding t) \<subseteq> set (outstanding s)"
    "\<And>c u. (c, u) \<in> set (outstanding t) \<Longrightarrow> calls t c = calls s c"
  shows "waits t"
  using assms unfolding waits_def by (metis subsetD)

lemma addFlag_resume_waits:
  assumes "waits s" "\<And>u. (cid, u) \<notin> set (outstanding s)"
  shows "waits (addFlag_resume cc cid v s)"
proof (rule waits_shrink[OF assms(1)])
  show "set (outstanding (addFlag_resume cc cid v s)) \<subseteq> set (outstanding s)"
    by (simp add: outstanding_def)
  fix c u assume "(c, u) \<in> set (outstanding (addFlag_resume cc cid v s))"
  then have "(c, u) \<in> set (outstanding s)" by (simp add: outstanding_def)
  then have "c \<noteq> cid" using assms(2) by auto
  then show "calls (addFlag_resume cc cid v s) c = calls s c"
    unfolding addFlag_resume_calls by (auto split: option.splits call.splits)
qed

lemma fold_resume_waits:
  "waits s \<Longrightarrow> (\<And>cid v u. (cid, v) \<in> set ms \<Longrightarrow> (cid, u) \<notin> set (outstanding s)) \<Longrightarrow>
   waits (fold (\<lambda>(cid, v). addFlag_resume cc cid v) ms s)"
proof (induction ms arbitrary: s)
  case Nil
  then show ?case by simp
next
  case (Cons a ms)
  obtain c v where a: "a = (c, v)" by (cases a)
  have 1: "waits (addFlag_resume cc c v s)"
    by (rule addFlag_resume_waits[OF Cons.prems(1)]) (use Cons.prems(2) a in auto)
  have 2: "outstanding (addFlag_resume cc c v s) = outstanding s" by (simp add: outstanding_def)
  have "waits (fold (\<lambda>(cid, v). addFlag_resume cc cid v) ms (addFlag_resume cc c v s))"
  proof (rule Cons.IH[OF 1])
    fix cid v' u assume "(cid, v') \<in> set ms"
    then show "(cid, u) \<notin> set (outstanding (addFlag_resume cc c v s))"
      unfolding 2 using Cons.prems(2)[of cid v' u] by simp
  qed
  then show ?case unfolding a by simp
qed

lemma settle_outstanding:
  assumes d: "distinct (map fst (requestQueue s) @ map req_id (bridge s))"
    and f: "find (\<lambda>x. req_id x = rid) (bridge s) = Some r"
    and g: "\<And>x. \<not> pending (g x)" "\<And>x. req_id (g x) = req_id x" "\<And>x. req_name (g x) = req_name x"
    and b: "bridge t = map (\<lambda>x. if req_id x = rid then g x else x) (bridge s)"
    and q: "requestQueue t = requestQueue s"
  shows "set (outstanding t) \<subseteq> set (outstanding s)" and "(rid, u) \<notin> set (outstanding t)"
proof -
  have rin: "rid \<in> set (map req_id (bridge s))" using find_in[OF f] by force
  then have nq: "rid \<notin> set (map fst (requestQueue s))" using d by auto
  show "set (outstanding t) \<subseteq> set (outstanding s)"
    unfolding outstanding_def b q using g by (auto split: if_splits)
  show "(rid, u) \<notin> set (outstanding t)"
  proof
    assume "(rid, u) \<in> set (outstanding t)"
    then consider "(rid, u) \<in> set (requestQueue s)"
      | x where "x \<in> set (bridge s)" "pending (if req_id x = rid then g x else x)"
          "req_id (if req_id x = rid then g x else x) = rid"
      unfolding outstanding_def b q by auto
    then show False
    proof cases
      case 1
      then show ?thesis using nq by force
    next
      case 2
      then show ?thesis using g by (auto split: if_splits)
    qed
  qed
qed

lemma handler_waits:
  assumes i: "inv1 s" and w: "waits s"
  shows "waits (handler cc rid loc rl s)"
proof (cases "find (\<lambda>x. req_id x = rid) (bridge s)")
  case None
  then show ?thesis using w by (simp add: handler_skip)
next
  case (Some r)
  show ?thesis
  proof (cases "listening r")
    case False
    then show ?thesis using w Some by (simp add: handler_skip)
  next
    case True
    let ?t = "handler cc rid loc rl s"
    let ?g = "\<lambda>x. x\<lparr>listening := False, promise := Fulfilled (or_null loc)\<rparr>"
    from i have ii: "ids_inv s" "bridge_inv s" by (simp_all add: inv1_def)
    have d: "distinct (map fst (requestQueue s) @ map req_id (bridge s))"
      using ii(1) by (rule ids_distinct_qb)
    have "req_ok r" using find_in[OF Some] ii(2) by (simp add: bridge_inv_def)
    with True have p: "promise r = Pending" by (simp add: req_ok_def)
    note so = settle_outstanding[OF d Some, where g = ?g and t = ?t,
        OF _ _ _ handler_bridge(1)[OF Some True p]]
    have sub: "set (outstanding ?t) \<subseteq> set (outstanding s)"
      by (rule so(1)) (simp_all add: pending_def)
    have nr: "\<And>u. (rid, u) \<notin> set (outstanding ?t)"
      by (rule so(2)) (simp_all add: pending_def)
    show ?thesis
    proof (rule waits_shrink[OF w sub])
      fix c u assume a: "(c, u) \<in> set (outstanding ?t)"
      then have "c \<noteq> rid" using nr by auto
      then show "calls ?t c = calls s c"
        unfolding handler_annot(1)[OF Some True p] addFlag_resume_calls
        by (auto split: option.splits call.splits)
    qed
  qed
qed

lemma request_timeout_waits:
  assumes i: "inv1 s" and w: "waits s"
  shows "waits (request_timeout cc rid s)"
proof (cases "find (\<lambda>x. req_id x = rid) (bridge s)")
  case None
  then show ?thesis using w by (simp add: request_timeout_skip)
next
  case (Some r)
  show ?thesis
  proof (cases "timer_armed r")
    case False
    then show ?thesis using w Some by (simp add: request_timeout_skip)
  next
    case True
    let ?t = "request_timeout cc rid s"
    from i have ii: "ids_inv s" "bridge_inv s" by (simp_all add: inv1_def)
    have d: "distinct (map fst (requestQueue s) @ map req_id (bridge s))"
      using ii(1) by (rule ids_distinct_qb)
    show ?thesis
    proof (cases "promise r = Pending")
      case p: True
      let ?g = "\<lambda>x. x\<lparr>listening := False, timer_armed := False,
                   promise := (if promise r = Pending then Fulfilled None else promise x)\<rparr>"
      note so = settle_outstanding[OF d Some, where g = ?g and t = ?t,
          OF _ _ _ request_timeout_bridge(1)[OF Some True]]
      have sub: "set (outstanding ?t) \<subseteq> set (outstanding s)"
        by (rule so(1)) (simp_all add: pending_def p)
      have nr: "\<And>u. (rid, u) \<notin> set (outstanding ?t)"
        by (rule so(2)) (simp_all add: pending_def p)
      show ?thesis
      proof (rule waits_shrink[OF w sub])
        fix c u assume a: "(c, u) \<in> set (outstanding ?t)"
        then have "c \<noteq> rid" using nr by auto
        then show "calls ?t c = calls s c"
          unfolding request_timeout_annot(1)[OF Some True p] addFlag_resume_calls
          by (auto split: option.splits call.splits)
      qed
    next
      case np: False
      have b: "bridge ?t = map (\<lambda>x. if req_id x = rid
                     then x\<lparr>listening := False, timer_armed := False\<rparr> else x) (bridge s)"
        using request_timeout_bridge(1)[OF Some True, of cc] np
        by (simp cong: if_cong)
      have "filter pending (bridge ?t) =
            map (\<lambda>x. if req_id x = rid then x\<lparr>listening := False, timer_armed := False\<rparr> else x)
              (filter pending (bridge s))"
        unfolding b by (rule upd_count_same) (simp add: pending_def)
      then have "outstanding ?t = outstanding s"
        unfolding outstanding_def by (simp add: o_def if_distrib cong: if_cong)
      then show ?thesis
        using w request_timeout_settled(1)[OF Some True np, of cc] by (simp add: waits_def)
    qed
  qed
qed

lemma waits_cong: "outstanding t = outstanding s \<Longrightarrow> calls t = calls s \<Longrightarrow> waits t = waits s"
  by (simp add: waits_def)

lemma waits_cong_set:
  "set (outstanding t) = set (outstanding s) \<Longrightarrow> calls t = calls s \<Longrightarrow> waits t = waits s"
  by (simp add: waits_def)

lemma waiter_resume_waits: "waits s \<Longrightarrow> waits (waiter_resume cid s)"
proof -
  assume w: "waits s"
  have o: "outstanding (waiter_resume cid s) = outstanding s" by (simp add: outstanding_def)
  show ?thesis unfolding waits_def o
  proof (intro allI impI)
    fix c u assume "(c, u) \<in> set (outstanding s)"
    then obtain nid b where "calls s c = Some (Awaiting nid u b)"
      using w unfolding waits_def by blast
    then show "\<exists>nid b. calls (waiter_resume cid s) c = Some (Awaiting nid u b)"
      unfolding waiter_resume_calls by (auto split: option.splits call.splits)
  qed
qed

lemma step_waits:
  assumes i: "inv1 s" and w: "waits s"
  shows "waits (step cc e s)"
proof (cases e)
  case Scan
  from i have ii: "ids_inv s" by (simp add: inv1_def)
  let ?p = "processUsernames s"
  have ip: "ids_inv ?p" using ii by (simp add: processUsernames_def fold_visit_ids_inv)
  have wp: "waits ?p" using ii w by (simp add: processUsernames_def fold_visit_waits)
  have o: "outstanding (?p\<lparr>microtasks := []\<rparr>) = outstanding ?p" by (simp add: outstanding_def)
  have w0: "waits (?p\<lparr>microtasks := []\<rparr>)" using wp by (simp add: waits_def o)
  have "waits (fold (\<lambda>(cid, v). addFlag_resume cc cid v) (microtasks ?p) (?p\<lparr>microtasks := []\<rparr>))"
  proof (rule fold_resume_waits[OF w0])
    fix cid v u assume "(cid, v) \<in> set (microtasks ?p)"
    then show "(cid, u) \<notin> set (outstanding (?p\<lparr>microtasks := []\<rparr>))"
      unfolding o by (rule micro_out[OF ip])
  qed
  then show ?thesis unfolding Scan by (simp add: run_microtasks_def)
next
  case (Response rid loc rl)
  then show ?thesis using handler_waits[OF i w] by simp
next
  case (Timeout rid)
  then show ?thesis using request_timeout_waits[OF i w] by simp
next
  case (WaiterWakes cid)
  then show ?thesis using waiter_resume_waits[OF w] by simp
next
  case DrainTimer
  then show ?thesis using w by (simp add: waits_cong_set[of "processRequestQueue s" s])
next
  case DrainWakes
  then show ?thesis using w
    by (auto simp: waits_cong_set[of "drain_resume s" s] split: option.splits)
qed (use w in \<open>simp_all add: waits_def outstanding_def\<close>)

lemma step_inv2: "inv2 s \<Longrightarrow> inv2 (step cc e s)"
  by (simp add: inv2_def step_inv1 step_calls_bound step_waits)

lemma run_inv2: "inv2 s \<Longrightarrow> inv2 (run cc es s)"
  unfolding run_def by (induction es arbitrary: s) (simp_all add: step_inv2)

lemma init_inv2: "inv2 (init now stored enabled page)"
  using init_inv1[of now stored enabled page] init_calls_bound[of now stored enabled page]
  by (simp add: inv2_def) (simp add: waits_def outstanding_def init_def)

lemma reachable_inv2: "inv2 (run cc es (init now stored enabled page))"
  by (rule run_inv2[OF init_inv2])

subsection \<open>One leading call per screen name, as long as nothing resets the set\<close>












section \<open>The claims\<close>

subsection \<open>Request scheduler and bridge channel\<close>

text \<open>
  C4. In every run, whatever is scheduled and whether or not a rate limit is signalled, the
  start times of the dispatched requests, in dispatch order, are at least 500 ms apart,
  and at most 5 requests are in flight; \<open>activeRequests\<close> counts exactly the requests in
  flight.
\<close>

theorem dispatch_spacing_and_ceiling:
  "spaced (map started (bridge (run cc es (init now stored enabled page)))) \<and>
   int (length (in_flight (run cc es (init now stored enabled page)))) \<le> MAX_CONCURRENT_REQUESTS \<and>
   activeRequests (run cc es (init now stored enabled page)) =
     int (length (in_flight (run cc es (init now stored enabled page))))"
  using reachable_inv1[of cc es now stored enabled page]
  by (simp add: inv1_def sched_inv_def in_flight_def)

text \<open>
  Three users are scheduled at once: their requests start at 1000, 1500 and 2200, when the
  spacing sleep ends, and all three are in flight together.
\<close>

theorem dispatch_spacing_and_ceiling_witness:
  "map started (bridge (run demo_cc [Scan, Tick 500, DrainWakes, Tick 700, DrainWakes] demo_init3)) =
     [1000, 1500, 2200] \<and>
   length (in_flight (run demo_cc [Scan, Tick 500, DrainWakes, Tick 700, DrainWakes] demo_init3)) = 3 \<and>
   spaced (map started (bridge (run demo_cc [Scan, Tick 500, DrainWakes, Tick 700, DrainWakes] demo_init3))) \<and>
   int (length (in_flight (run demo_cc [Scan, Tick 500, DrainWakes, Tick 700, DrainWakes] demo_init3)))
     \<le> MAX_CONCURRENT_REQUESTS \<and>
   activeRequests (run demo_cc [Scan, Tick 500, DrainWakes, Tick 700, DrainWakes] demo_init3) =
     int (length (in_flight (run demo_cc [Scan, Tick 500, DrainWakes, Tick 700, DrainWakes] demo_init3)))"
proof -
  have a: "map started (bridge (run demo_cc [Scan, Tick 500, DrainWakes, Tick 700, DrainWakes] demo_init3)) =
     [1000, 1500, 2200]" by code_simp
  have b: "length (in_flight (run demo_cc [Scan, Tick 500, DrainWakes, Tick 700, DrainWakes] demo_init3)) = 3"
    by code_simp
  note t = dispatch_spacing_and_ceiling[of demo_cc "[Scan, Tick 500, DrainWakes, Tick 700, DrainWakes]"
      1000 Map.empty True "[(1, demo_node ''alice''), (2, demo_node ''bob''), (3, demo_node ''carol'')]",
      folded demo_init3_def]
  show ?thesis by (rule conjI[OF a conjI[OF b t]])
qed

text \<open>
  C3. For every request made over the bridge, in every run: its promise is never rejected;
  while it is pending the listener is registered and the 10 second timer is armed; when
  that timer fires the listener is deregistered and the promise, if still pending, is
  resolved to no location (a promise resolved by a response keeps its value); and once
  the listener is deregistered a matching response changes nothing at all, so a late
  response neither resolves the promise a second time nor fails.
\<close>

theorem bridge_request_contract:
  assumes r: "r \<in> set (bridge (run cc es (init now stored enabled page)))"
  shows "promise r \<noteq> Rejected \<and>
         (promise r = Pending \<longrightarrow> listening r \<and> timer_armed r) \<and>
         find (\<lambda>x. req_id x = req_id r)
           (bridge (step cc (Timeout (req_id r)) (run cc es (init now stored enabled page)))) =
         Some (r\<lparr>listening := False, timer_armed := False,
                 promise := (if promise r = Pending then Fulfilled None else promise r)\<rparr>) \<and>
         (\<not> listening r \<longrightarrow>
         step cc (Response (req_id r) loc isRateLimited) (run cc es (init now stored enabled page)) =
         run cc es (init now stored enabled page))"
proof -
  let ?s = "run cc es (init now stored enabled page)"
  have i: "inv1 ?s" by (rule reachable_inv1)
  then have ok: "req_ok r" using r by (simp add: inv1_def bridge_inv_def)
  have d: "distinct (map req_id (bridge ?s))" using i by (simp add: inv1_def ids_distinct_bridge)
  have f: "find (\<lambda>x. req_id x = req_id r) (bridge ?s) = Some r" by (rule find_distinct[OF d r])
  have 1: "promise r \<noteq> Rejected" using ok by (simp add: req_ok_def)
  have 2: "promise r = Pending \<longrightarrow> listening r \<and> timer_armed r" using ok by (simp add: req_ok_def)
  have 4: "\<not> listening r \<longrightarrow> step cc (Response (req_id r) loc isRateLimited) ?s = ?s"
    using handler_skip(2)[OF f] by simp
  have 3: "find (\<lambda>x. req_id x = req_id r) (bridge (step cc (Timeout (req_id r)) ?s)) =
         Some (r\<lparr>listening := False, timer_armed := False,
                 promise := (if promise r = Pending then Fulfilled None else promise r)\<rparr>)"
  proof (cases "timer_armed r")
    case False
    with ok have "r\<lparr>listening := False, timer_armed := False,
                 promise := (if promise r = Pending then Fulfilled None else promise r)\<rparr> = r"
      by (auto simp: req_ok_def)
    then show ?thesis using request_timeout_skip(2)[OF f False] f by simp
  next
    case True
    have u: "\<And>x. x \<in> set (bridge ?s) \<Longrightarrow> req_id x = req_id r \<Longrightarrow> x = r"
      using find_distinct[OF d] f by fastforce
    let ?g = "\<lambda>x. x\<lparr>listening := False, timer_armed := False,
                   promise := (if promise r = Pending then Fulfilled None else promise x)\<rparr>"
    have "find (\<lambda>x. req_id x = req_id r)
            (map (\<lambda>x. if req_id x = req_id r then ?g x else x) (bridge ?s)) =
          map_option ?g (find (\<lambda>x. req_id x = req_id r) (bridge ?s))"
      by (rule find_upd) simp
    then show ?thesis
      by (simp add: request_timeout_bridge(1)[OF f True] f)
  qed
  show ?thesis using 1 2 3 4 by blast
qed

text \<open>
  The request for alice times out after 10 seconds, then her response arrives late.
\<close>

theorem bridge_request_contract_witness:
  "\<lparr>req_id = 0, req_name = ''alice'', started = 1000, listening = True, timer_armed = True,
     promise = Pending\<rparr> \<in> set (bridge (run demo_cc [Scan, Tick 10000] demo_init)) \<and>
   \<lparr>req_id = 0, req_name = ''alice'', started = 1000, listening = False, timer_armed = False,
     promise = Fulfilled None\<rparr> \<in> set (bridge (run demo_cc [Scan, Tick 10000, Timeout 0] demo_init)) \<and>
   find (\<lambda>x. req_id x = 0) (bridge (step demo_cc (Timeout 0) (run demo_cc [Scan, Tick 10000] demo_init))) =
     Some \<lparr>req_id = 0, req_name = ''alice'', started = 1000, listening = False, timer_armed = False,
           promise = Fulfilled None\<rparr> \<and>
   step demo_cc (Response 0 (Some ''France'') False) (run demo_cc [Scan, Tick 10000, Timeout 0] demo_init) =
     run demo_cc [Scan, Tick 10000, Timeout 0] demo_init"
proof -
  let ?r0 = "\<lparr>req_id = 0, req_name = ''alice'', started = 1000, listening = True, timer_armed = True,
     promise = Pending\<rparr>"
  let ?r1 = "\<lparr>req_id = 0, req_name = ''alice'', started = 1000, listening = False, timer_armed = False,
     promise = Fulfilled None\<rparr>"
  have a: "?r0 \<in> set (bridge (run demo_cc [Scan, Tick 10000] demo_init))" by code_simp
  have b: "?r1 \<in> set (bridge (run demo_cc [Scan, Tick 10000, Timeout 0] demo_init))" by code_simp
  note t0 = bridge_request_contract[OF a[unfolded demo_init_def], of "Some ''France''" False,
      folded demo_init_def]
  note t1 = bridge_request_contract[OF b[unfolded demo_init_def], of "Some ''France''" False,
      folded demo_init_def]
  have nl: "\<not> listening ?r1" by simp
  have c: "find (\<lambda>x. req_id x = 0) (bridge (step demo_cc (Timeout 0) (run demo_cc [Scan, Tick 10000] demo_init))) =
     Some ?r1"
    using t0[THEN conjunct2, THEN conjunct2, THEN conjunct1] by simp
  have d: "step demo_cc (Response 0 (Some ''France'') False) (run demo_cc [Scan, Tick 10000, Timeout 0] demo_init) =
     run demo_cc [Scan, Tick 10000, Timeout 0] demo_init"
    using t1[THEN conjunct2, THEN conjunct2, THEN conjunct2, THEN mp, OF nl] by simp
  show ?thesis by (intro conjI a b c d)
qed

subsection \<open>Deduplication, idempotence and the states of an element\<close>

lemma run_append: "run cc (es @ es') s = run cc es' (run cc es s)"
  by (simp add: run_def)

lemma run_snoc: "run cc (es @ [e]) s = step cc e (run cc es s)"
  by (simp add: run_def)

lemma quiet_iff: "calls_bound s \<Longrightarrow> (awaiting_on nid s = []) = quiet' nid s"
proof
  assume b: "calls_bound s" and a: "awaiting_on nid s = []"
  show "quiet' nid s" unfolding quiet'_def
  proof (intro allI impI)
    fix cid n u bb assume c: "calls s cid = Some (Awaiting n u bb)"
    then have "cid < next_call s" using b by (simp add: calls_bound_def)
    then have "cid \<in> set [0..<next_call s]" by simp
    with a c show "n \<noteq> nid" unfolding awaiting_on_def filter_empty_conv by fastforce
  qed
next
  assume "quiet' nid s"
  then show "awaiting_on nid s = []"
    unfolding awaiting_on_def filter_empty_conv quiet'_def
    by (auto split: option.splits call.splits)
qed





text \<open>
  C6. In every run, every username element holds at most one flag image and at most one
  loading placeholder. The guards behind it: on an element marked \<open>true\<close> the annotator
  returns at once; the scan, the annotator's only caller, passes over every element that
  carries a marker, and an element without marker holds no placeholder; and where a flag
  is already in the element, the part of the annotator that places the flag inserts
  nothing, inside the element or outside.
\<close>

theorem at_most_one_flag_and_placeholder:
  assumes "document (run cc es (init now stored enabled page)) nid = Some n"
  shows "flags n \<le> 1 \<and> length (shimmers n) \<le> 1 \<and>
         (flagAdded n = Some FlagTrue \<longrightarrow>
            addFlagToUsername nid u (run cc es (init now stored enabled page)) =
              run cc es (init now stored enabled page)) \<and>
         (flagAdded n \<noteq> None \<longrightarrow>
            visit nid (run cc es (init now stored enabled page)) =
              run cc es (init now stored enabled page)) \<and>
         (0 < flags n \<longrightarrow>
            flags (fst (place_flag cc loc n)) = flags n \<and> snd (place_flag cc loc n) = 0)"
proof -
  have "doc_inv (run cc es (init now stored enabled page))"
    by (rule run_doc_inv[OF init_doc_inv])
  with assms have 1: "flags n \<le> 1 \<and> length (shimmers n) \<le> 1"
    by (auto simp: doc_inv_def node_ok_def)
  have 2: "flagAdded n = Some FlagTrue \<longrightarrow>
            addFlagToUsername nid u (run cc es (init now stored enabled page)) =
              run cc es (init now stored enabled page)"
    using assms by (simp add: addFlagToUsername_def)
  have 3: "flagAdded n \<noteq> None \<longrightarrow>
            visit nid (run cc es (init now stored enabled page)) =
              run cc es (init now stored enabled page)"
    using assms by (simp add: visit_def)
  have 4: "0 < flags n \<longrightarrow>
            flags (fst (place_flag cc loc n)) = flags n \<and> snd (place_flag cc loc n) = 0"
    by (auto simp: place_flag_def split: option.splits)
  show ?thesis using 1 2 3 4 by blast
qed

text \<open>
  Scanning twice while the request is in flight leaves one placeholder; scanning again
  after the flag is in place leaves one flag.
\<close>

theorem at_most_one_flag_and_placeholder_witness:
  "document (run demo_cc [Scan, Scan] demo_init) 1 =
     Some ((demo_node ''alice'')\<lparr>flagAdded := Some Processing, shimmers := [0]\<rparr>) \<and>
   document (run demo_cc [Scan, Scan, Response 0 (Some ''France'') False, Scan] demo_init) 1 =
     Some ((demo_node ''alice'')\<lparr>flagAdded := Some FlagTrue, flags := 1\<rparr>) \<and>
   (flags ((demo_node ''alice'')\<lparr>flagAdded := Some Processing, shimmers := [0]\<rparr>) \<le> 1 \<and>
    length (shimmers ((demo_node ''alice'')\<lparr>flagAdded := Some Processing, shimmers := [0]\<rparr>)) \<le> 1) \<and>
   (flags ((demo_node ''alice'')\<lparr>flagAdded := Some FlagTrue, flags := 1\<rparr>) \<le> 1 \<and>
    length (shimmers ((demo_node ''alice'')\<lparr>flagAdded := Some FlagTrue, flags := 1\<rparr>)) \<le> 1) \<and>
   addFlagToUsername 1 ''alice''
     (run demo_cc [Scan, Scan, Response 0 (Some ''France'') False, Scan] demo_init) =
     run demo_cc [Scan, Scan, Response 0 (Some ''France'') False, Scan] demo_init \<and>
   visit 1 (run demo_cc [Scan, Scan] demo_init) = run demo_cc [Scan, Scan] demo_init \<and>
   (flags (fst (place_flag demo_cc (Some ''France'')
       ((demo_node ''alice'')\<lparr>flagAdded := Some FlagTrue, flags := 1\<rparr>))) =
      flags ((demo_node ''alice'')\<lparr>flagAdded := Some FlagTrue, flags := 1\<rparr>) \<and>
    snd (place_flag demo_cc (Some ''France'')
       ((demo_node ''alice'')\<lparr>flagAdded := Some FlagTrue, flags := 1\<rparr>)) = 0)"
proof -
  let ?na = "(demo_node ''alice'')\<lparr>flagAdded := Some Processing, shimmers := [0]\<rparr>"
  let ?nb = "(demo_node ''alice'')\<lparr>flagAdded := Some FlagTrue, flags := 1\<rparr>"
  have a: "document (run demo_cc [Scan, Scan] demo_init) 1 = Some ?na" by code_simp
  have b: "document (run demo_cc [Scan, Scan, Response 0 (Some ''France'') False, Scan] demo_init) 1 =
     Some ?nb" by code_simp
  note ta = at_most_one_flag_and_placeholder[OF a[unfolded demo_init_def],
      where u = "''alice''" and loc = "Some ''France''", folded demo_init_def]
  note tb = at_most_one_flag_and_placeholder[OF b[unfolded demo_init_def],
      where u = "''alice''" and loc = "Some ''France''", folded demo_init_def]
  have m1: "flagAdded ?nb = Some FlagTrue" by simp
  have m2: "flagAdded ?na \<noteq> None" by simp
  have m3: "0 < flags ?nb" by simp
  show ?thesis
    by (intro conjI a b ta[THEN conjunct1] ta[THEN conjunct2, THEN conjunct1]
        tb[THEN conjunct1] tb[THEN conjunct2, THEN conjunct1]
        tb[THEN conjunct2, THEN conjunct2, THEN conjunct1, THEN mp, OF m1]
        ta[THEN conjunct2, THEN conjunct2, THEN conjunct2, THEN conjunct1, THEN mp, OF m2]
        tb[THEN conjunct2, THEN conjunct2, THEN conjunct2, THEN conjunct2, THEN mp, OF m3, THEN conjunct1]
        tb[THEN conjunct2, THEN conjunct2, THEN conjunct2, THEN conjunct2, THEN mp, OF m3, THEN conjunct2])
qed

text \<open>
  C10 (as amended). In every continuation of the run that does not disable the extension,
  an element whose marker is \<open>waiting\<close> keeps a marker and every scan passes over it; and
  if no call awaits a location on it, it stays exactly as it is: it receives no flag and
  no call that awaits a location is started on it.
\<close>

theorem waiting_element_stays:
  assumes n: "document (run cc es0 (init now stored enabled page)) nid = Some n"
    and m: "flagAdded n = Some Waiting"
    and nr: "Toggle False \<notin> set es"
  shows "marked nid (run cc (es0 @ es) (init now stored enabled page)) \<and>
         visit nid (run cc (es0 @ es) (init now stored enabled page)) =
           run cc (es0 @ es) (init now stored enabled page) \<and>
         (awaiting_on nid (run cc es0 (init now stored enabled page)) = [] \<longrightarrow>
            document (run cc (es0 @ es) (init now stored enabled page)) nid = Some n \<and>
            awaiting_on nid (run cc (es0 @ es) (init now stored enabled page)) = [])"
proof -
  let ?s = "run cc es0 (init now stored enabled page)"
  let ?t = "run cc (es0 @ es) (init now stored enabled page)"
  have cb: "calls_bound ?s" "calls_bound ?t"
    using reachable_inv2 by (simp_all add: inv2_def)
  have n': "n\<lparr>flagAdded := Some Waiting\<rparr> = n" using m by simp
  have "marked nid ?s" using n m by (simp add: marked_def)
  from run_marked[OF this nr, of cc] have mk: "marked nid ?t" by (simp add: run_append)
  have v: "visit nid ?t = ?t" by (rule marked_skip[OF mk])
  have "awaiting_on nid ?s = [] \<longrightarrow> document ?t nid = Some n \<and> awaiting_on nid ?t = []"
  proof
    assume q: "awaiting_on nid ?s = []"
    have "stuck {Waiting} n nid ?s"
      using n q quiet_iff[OF cb(1)] by (simp add: stuck_def n')
    from run_stuck[OF this _ nr, of cc] have st: "stuck {Waiting} n nid ?t"
      by (simp add: run_append)
    then have d: "document ?t nid = Some n" by (simp add: stuck_def n')
    have "awaiting_on nid ?t = []" using st quiet_iff[OF cb(2)] by (simp add: stuck_def)
    with d show "document ?t nid = Some n \<and> awaiting_on nid ?t = []" by simp
  qed
  with mk v show ?thesis by simp
qed

text \<open>
  The second element of alice is left \<open>waiting\<close>; the response and later scans give the flag
  to the first element only.
\<close>

theorem waiting_element_stays_witness:
  "document (run demo_cc [Scan, Tick 500, WaiterWakes 1] demo_init2) 2 =
     Some ((demo_node ''alice'')\<lparr>flagAdded := Some Waiting\<rparr>) \<and>
   awaiting_on 2 (run demo_cc [Scan, Tick 500, WaiterWakes 1] demo_init2) = [] \<and>
   Toggle False \<notin> set [Response 0 (Some ''France'') False, Scan, Tick 2000, Scan] \<and>
   marked 2 (run demo_cc ([Scan, Tick 500, WaiterWakes 1] @ [Response 0 (Some ''France'') False, Scan, Tick 2000, Scan])
      demo_init2) \<and>
   visit 2 (run demo_cc ([Scan, Tick 500, WaiterWakes 1] @ [Response 0 (Some ''France'') False, Scan, Tick 2000, Scan])
      demo_init2) =
     run demo_cc ([Scan, Tick 500, WaiterWakes 1] @ [Response 0 (Some ''France'') False, Scan, Tick 2000, Scan])
      demo_init2 \<and>
   document (run demo_cc ([Scan, Tick 500, WaiterWakes 1] @ [Response 0 (Some ''France'') False, Scan, Tick 2000, Scan])
      demo_init2) 2 = Some ((demo_node ''alice'')\<lparr>flagAdded := Some Waiting\<rparr>) \<and>
   awaiting_on 2 (run demo_cc ([Scan, Tick 500, WaiterWakes 1] @ [Response 0 (Some ''France'') False, Scan, Tick 2000, Scan])
      demo_init2) = []"
proof -
  have a: "document (run demo_cc [Scan, Tick 500, WaiterWakes 1] demo_init2) 2 =
     Some ((demo_node ''alice'')\<lparr>flagAdded := Some Waiting\<rparr>)" by code_simp
  have m: "flagAdded ((demo_node ''alice'')\<lparr>flagAdded := Some Waiting\<rparr>) = Some Waiting" by simp
  have q: "awaiting_on 2 (run demo_cc [Scan, Tick 500, WaiterWakes 1] demo_init2) = []" by code_simp
  have h: "Toggle False \<notin> set [Response 0 (Some ''France'') False, Scan, Tick 2000, Scan]" by simp
  note t = waiting_element_stays[OF a[unfolded demo_init2_def] m h, folded demo_init2_def]
  note t3 = t[THEN conjunct2, THEN conjunct2, THEN mp, OF q]
  show ?thesis by (intro conjI a q h t[THEN conjunct1] t[THEN conjunct2, THEN conjunct1]
        t3[THEN conjunct1] t3[THEN conjunct2])
qed

text \<open>
  C10 as stated fails, with no reset at all. Two elements name alice. The first scan
  leads on element 1 and diverts the call on element 2, which sleeps 500 ms and sets no
  marker before it wakes. The answer for element 1 carries no location: that call ends
  and releases alice. A second scan finds element 2 without marker and starts a leading
  call on it. The diverted call then wakes and sets \<open>waiting\<close> over \<open>processing\<close>. When the
  response to the leading call arrives, that call inserts a flag into element 2 and sets
  its marker to \<open>true\<close>.
\<close>

theorem waiting_element_flagged_without_reset:
  "map_option (\<lambda>n. (flags n, flagAdded n)) (document (run demo_cc
      [Scan, Response 0 None False, Scan, Tick 500, DrainWakes, WaiterWakes 1]
      demo_init2) 2) = Some (0, Some Waiting) \<and>
   awaiting_on 2 (run demo_cc
      [Scan, Response 0 None False, Scan, Tick 500, DrainWakes, WaiterWakes 1]
      demo_init2) = [2] \<and>
   map_option (\<lambda>n. (flags n, flagAdded n)) (document (run demo_cc
      [Scan, Response 0 None False, Scan, Tick 500, DrainWakes, WaiterWakes 1,
       Response 2 (Some ''France'') False]
      demo_init2) 2) = Some (1, Some FlagTrue)"
  by code_simp

text \<open>
  C7 (as amended). When the 10 second timer of a pending request fires, nothing is cached,
  in memory or in storage, and the call that awaited the request marks its element
  \<open>failed\<close>. In every continuation that does not disable the extension the element keeps
  a marker and every scan passes over it; and if no other call awaits a location on it,
  its marker stays \<open>failed\<close> (or \<open>waiting\<close>, set by a diverted call) and its flags do not
  change.
\<close>

theorem bridge_timeout_marks_failed:
  assumes r: "r \<in> set (bridge (run cc es0 (init now stored enabled page)))"
    and p: "promise r = Pending"
    and c: "calls (run cc es0 (init now stored enabled page)) (req_id r) = Some (Awaiting nid u b)"
    and n: "document (run cc es0 (init now stored enabled page)) nid = Some n"
    and nr: "Toggle False \<notin> set es"
  shows "locationCache (run cc (es0 @ [Timeout (req_id r)]) (init now stored enabled page)) =
           locationCache (run cc es0 (init now stored enabled page)) \<and>
         storage (run cc (es0 @ [Timeout (req_id r)]) (init now stored enabled page)) =
           storage (run cc es0 (init now stored enabled page)) \<and>
         map_option flagAdded
           (document (run cc (es0 @ [Timeout (req_id r)]) (init now stored enabled page)) nid) =
           Some (Some Failed) \<and>
         marked nid (run cc (es0 @ Timeout (req_id r) # es) (init now stored enabled page)) \<and>
         visit nid (run cc (es0 @ Timeout (req_id r) # es) (init now stored enabled page)) =
           run cc (es0 @ Timeout (req_id r) # es) (init now stored enabled page) \<and>
         (awaiting_on nid (run cc (es0 @ [Timeout (req_id r)]) (init now stored enabled page)) = [] \<longrightarrow>
            map_option flags
              (document (run cc (es0 @ Timeout (req_id r) # es) (init now stored enabled page)) nid) =
              Some (flags n) \<and>
            map_option flagAdded
              (document (run cc (es0 @ Timeout (req_id r) # es) (init now stored enabled page)) nid)
              \<in> {Some (Some Failed), Some (Some Waiting)})"
proof -
  let ?s0 = "run cc es0 (init now stored enabled page)"
  let ?s1 = "run cc (es0 @ [Timeout (req_id r)]) (init now stored enabled page)"
  let ?s2 = "run cc (es0 @ Timeout (req_id r) # es) (init now stored enabled page)"
  have s1: "?s1 = request_timeout cc (req_id r) ?s0" by (simp add: run_snoc)
  have s2: "?s2 = run cc es ?s1" by (simp add: run_def)
  have i: "inv1 ?s0" by (rule reachable_inv1)
  then have ok: "req_ok r" using r by (simp add: inv1_def bridge_inv_def)
  have d: "distinct (map req_id (bridge ?s0))" using i by (simp add: inv1_def ids_distinct_bridge)
  have f: "find (\<lambda>x. req_id x = req_id r) (bridge ?s0) = Some r" by (rule find_distinct[OF d r])
  have ta: "timer_armed r" using ok p by (simp add: req_ok_def)
  define n1 where "n1 = (if b \<and> req_id r \<in> set (shimmers n)
                    then n\<lparr>shimmers := removeAll (req_id r) (shimmers n)\<rparr> else n)"
  have pf: "\<And>x. fst (place_flag cc None x) = x\<lparr>flagAdded := Some Failed\<rparr>"
    by (simp add: place_flag_def)
  have d1: "document ?s1 nid = Some (n1\<lparr>flagAdded := Some Failed\<rparr>)"
    unfolding s1 request_timeout_annot(2)[OF f ta p] addFlag_resume_document
    using c n by (simp add: pf n1_def)
  have fl: "flags n1 = flags n" by (simp add: n1_def)
  have cb: "calls_bound ?s1" using reachable_inv2 by (simp add: inv2_def)
  have "marked nid ?s1" using d1 by (simp add: marked_def)
  from run_marked[OF this nr, of cc] have mk: "marked nid ?s2" by (simp add: s2)
  have v: "visit nid ?s2 = ?s2" by (rule marked_skip[OF mk])
  have 1: "locationCache ?s1 = locationCache ?s0" "storage ?s1 = storage ?s0" by (simp_all add: s1)
  have 3: "map_option flagAdded (document ?s1 nid) = Some (Some Failed)" using d1 by simp
  have 4: "awaiting_on nid ?s1 = [] \<longrightarrow>
            map_option flags (document ?s2 nid) = Some (flags n) \<and>
            map_option flagAdded (document ?s2 nid) \<in> {Some (Some Failed), Some (Some Waiting)}"
  proof
    assume q: "awaiting_on nid ?s1 = []"
    have "stuck {Failed, Waiting} n1 nid ?s1"
      using d1 q quiet_iff[OF cb] by (simp add: stuck_def)
    from run_stuck[OF this _ nr, of cc] have "stuck {Failed, Waiting} n1 nid ?s2"
      by (simp add: s2)
    then obtain m where m: "m \<in> {Failed, Waiting}" "document ?s2 nid = Some (n1\<lparr>flagAdded := Some m\<rparr>)"
      by (auto simp: stuck_def)
    then show "map_option flags (document ?s2 nid) = Some (flags n) \<and>
            map_option flagAdded (document ?s2 nid) \<in> {Some (Some Failed), Some (Some Waiting)}"
      using fl by auto
  qed
  show ?thesis using 1 3 4 mk v by blast
qed

text \<open>
  The request for alice times out after 10 seconds; two later scans leave her element \<open>failed\<close>.
\<close>

theorem bridge_timeout_marks_failed_witness:
  "\<lparr>req_id = 0, req_name = ''alice'', started = 1000, listening = True, timer_armed = True,
     promise = Pending\<rparr> \<in> set (bridge (run demo_cc [Scan, Tick 10000] demo_init)) \<and>
   calls (run demo_cc [Scan, Tick 10000] demo_init) 0 = Some (Awaiting 1 ''alice'' True) \<and>
   document (run demo_cc [Scan, Tick 10000] demo_init) 1 =
     Some ((demo_node ''alice'')\<lparr>flagAdded := Some Processing, shimmers := [0]\<rparr>) \<and>
   awaiting_on 1 (run demo_cc ([Scan, Tick 10000] @ [Timeout 0]) demo_init) = [] \<and>
   Toggle False \<notin> set [Scan, Tick 2000, Scan] \<and>
   locationCache (run demo_cc ([Scan, Tick 10000] @ [Timeout 0]) demo_init) =
     locationCache (run demo_cc [Scan, Tick 10000] demo_init) \<and>
   storage (run demo_cc ([Scan, Tick 10000] @ [Timeout 0]) demo_init) = storage (run demo_cc [Scan, Tick 10000] demo_init) \<and>
   map_option flagAdded (document (run demo_cc ([Scan, Tick 10000] @ [Timeout 0]) demo_init) 1) =
     Some (Some Failed) \<and>
   marked 1 (run demo_cc ([Scan, Tick 10000] @ Timeout 0 # [Scan, Tick 2000, Scan]) demo_init) \<and>
   visit 1 (run demo_cc ([Scan, Tick 10000] @ Timeout 0 # [Scan, Tick 2000, Scan]) demo_init) =
     run demo_cc ([Scan, Tick 10000] @ Timeout 0 # [Scan, Tick 2000, Scan]) demo_init \<and>
   map_option flags
     (document (run demo_cc ([Scan, Tick 10000] @ Timeout 0 # [Scan, Tick 2000, Scan]) demo_init) 1) = Some 0 \<and>
   map_option flagAdded
     (document (run demo_cc ([Scan, Tick 10000] @ Timeout 0 # [Scan, Tick 2000, Scan]) demo_init) 1)
     \<in> {Some (Some Failed), Some (Some Waiting)}"
proof -
  let ?r = "\<lparr>req_id = 0, req_name = ''alice'', started = 1000, listening = True, timer_armed = True,
     promise = Pending\<rparr>"
  have r: "?r \<in> set (bridge (run demo_cc [Scan, Tick 10000] demo_init))" by code_simp
  have p: "promise ?r = Pending" by simp
  have c: "calls (run demo_cc [Scan, Tick 10000] demo_init) 0 = Some (Awaiting 1 ''alice'' True)" by code_simp
  have n: "document (run demo_cc [Scan, Tick 10000] demo_init) 1 =
     Some ((demo_node ''alice'')\<lparr>flagAdded := Some Processing, shimmers := [0]\<rparr>)" by code_simp
  have q: "awaiting_on 1 (run demo_cc ([Scan, Tick 10000] @ [Timeout 0]) demo_init) = []" by code_simp
  have h: "Toggle False \<notin> set [Scan, Tick 2000, Scan]" by simp
  have rid: "req_id ?r = 0" by simp
  have fl: "flags ((demo_node ''alice'')\<lparr>flagAdded := Some Processing, shimmers := [0]\<rparr>) = 0"
    by (simp add: demo_node_def)
  note t = bridge_timeout_marks_failed[of ?r demo_cc "[Scan, Tick 10000]" 1000 Map.empty True
      "[(1, demo_node ''alice'')]" 1 "''alice''" True
      "(demo_node ''alice'')\<lparr>flagAdded := Some Processing, shimmers := [0]\<rparr>" "[Scan, Tick 2000, Scan]",
      folded demo_init_def, unfolded rid fl, OF r p c n h]
  note t6 = t[THEN conjunct2, THEN conjunct2, THEN conjunct2, THEN conjunct2, THEN conjunct2,
      THEN mp, OF q]
  show ?thesis
    by (intro conjI r c n q h t[THEN conjunct1] t[THEN conjunct2, THEN conjunct1]
        t[THEN conjunct2, THEN conjunct2, THEN conjunct1]
        t[THEN conjunct2, THEN conjunct2, THEN conjunct2, THEN conjunct1]
        t[THEN conjunct2, THEN conjunct2, THEN conjunct2, THEN conjunct2, THEN conjunct1]
        t6[THEN conjunct1] t6[THEN conjunct2])
qed

text \<open>
  C7 as stated fails: after the timeout the element is \<open>failed\<close>, and the following scans
  neither change the marker nor make another request.
\<close>

theorem timed_out_element_not_retried:
  "map_option flagAdded (document (run demo_cc [Scan, Tick 10000, Timeout 0] demo_init) 1) = Some (Some Failed) \<and>
   map_option flagAdded (document (run demo_cc [Scan, Tick 10000, Timeout 0, Scan, Tick 2000, Scan] demo_init) 1) =
     Some (Some Failed) \<and>
   length (bridge (run demo_cc [Scan, Tick 10000, Timeout 0, Scan, Tick 2000, Scan] demo_init)) = 1 \<and>
   requestQueue (run demo_cc [Scan, Tick 10000, Timeout 0, Scan, Tick 2000, Scan] demo_init) = []"
  by code_simp

subsection \<open>Enable/disable controller\<close>

subsection \<open>A scan after the reset\<close>

lemma addFlagToUsername_lead_cache:
  assumes "document s nid = Some n" "flagAdded n \<noteq> Some FlagTrue" "u \<notin> processingUsernames s"
    and "locationCache s u = None"
  shows "locationCache (addFlagToUsername nid u s) = (locationCache s)(u := None)"
proof -
  define t where "t = s\<lparr>document := (document s)(nid \<mapsto> n\<lparr>flagAdded := Some Processing,
              shimmers := (if has_container n \<and> shimmer_ok n then shimmers n @ [next_call s]
                           else shimmers n)\<rparr>),
              processingUsernames := insert u (processingUsernames s),
              calls := (calls s)(next_call s \<mapsto> Awaiting nid u (has_container n \<and> shimmer_ok n)),
              next_call := next_call s + 1\<rparr>"
  have e: "addFlagToUsername nid u s = getUserLocation (next_call s) u t"
    using assms by (simp add: addFlagToUsername_def Let_def t_def)
  have o: "locationCache t = locationCache s" by (simp add: t_def)
  show ?thesis unfolding e using getUserLocation_effect(2)[of t u "next_call s"] assms(4)
    by (simp add: o)
qed

lemma visit_requeued:
  assumes j: "requeued n0 s"
  shows "requeued n0 (visit k s) \<and> processingUsernames s \<subseteq> processingUsernames (visit k s) \<and>
         name_of (visit k s) = name_of s \<and>
         (\<forall>u. name_of s k = Some u \<longrightarrow> u \<in> processingUsernames (visit k s))"
proof (cases k s rule: visit_cases)
  case skip
  have "\<forall>u. name_of s k = Some u \<longrightarrow> u \<in> processingUsernames s"
  proof (intro allI impI)
    fix u assume a: "name_of s k = Some u"
    then obtain n where n: "document s k = Some n" "extracted n = Some u"
      by (auto simp: name_of_def split: option.splits)
    have "flagAdded n \<noteq> None"
    proof
      assume "flagAdded n = None"
      then have v: "visit k s = addFlagToUsername k u s" using n by (simp add: visit_def)
      have nt: "flagAdded n \<noteq> Some FlagTrue" using \<open>flagAdded n = None\<close> by simp
      have "next_call (visit k s) = next_call s + 1"
      proof (cases "u \<in> processingUsernames s")
        case True
        show ?thesis unfolding v addFlagToUsername_divert[OF n(1) nt True] by simp
      next
        case False
        show ?thesis unfolding v by (rule addFlagToUsername_lead(4)[OF n(1) nt False])
      qed
      then show False using skip by simp
    qed
    then show "u \<in> processingUsernames s" using j n unfolding requeued_def by blast
  qed
  then show ?thesis using skip j by simp
next
  case (divert n u)
  have o: "outstanding (visit k s) = outstanding s" unfolding divert(5) by (simp add: outstanding_def)
  have 1: "requeued n0 (visit k s)"
    using j unfolding requeued_def o unfolding divert(5) by simp
  have 2: "name_of (visit k s) = name_of s" unfolding divert(5) by (simp add: name_of_def fun_eq_iff)
  have 3: "\<forall>v. name_of s k = Some v \<longrightarrow> v \<in> processingUsernames (visit k s)"
    unfolding divert(5) using divert(1,3,4) by (simp add: name_of_def)
  show ?thesis using 1 2 3 unfolding divert(5) by simp
next
  case (lead n u)
  have nt: "flagAdded n \<noteq> Some FlagTrue" using lead(2) by simp
  note l = addFlagToUsername_lead[OF lead(1) nt lead(4)]
  from j have ce: "locationCache s = Map.empty" and me: "microtasks s = []" and nb: "n0 \<le> next_call s"
    and mk: "\<And>k n u. document s k = Some n \<Longrightarrow> flagAdded n \<noteq> None \<Longrightarrow> extracted n = Some u \<Longrightarrow>
        u \<in> processingUsernames s"
    and rq: "\<And>u. u \<in> processingUsernames s \<Longrightarrow> \<exists>cid\<ge>n0. (cid, u) \<in> set (outstanding s)"
    unfolding requeued_def by blast+
  have miss: "locationCache s u = None" using ce by simp
  have r: "microtasks (visit k s) = microtasks s"
    "set (outstanding (visit k s)) = insert (next_call s, u) (set (outstanding s))"
    using addFlagToUsername_lead_request(2)[OF lead(1) nt lead(4)] miss lead(5) by simp_all
  have c: "locationCache (visit k s) = Map.empty"
    unfolding lead(5) addFlagToUsername_lead_cache[OF lead(1) nt lead(4) miss] using ce by simp
  have 1: "requeued n0 (visit k s)"
    unfolding requeued_def
  proof (intro conjI allI impI ballI)
    show "locationCache (visit k s) = Map.empty" by (rule c)
    show "microtasks (visit k s) = []" using r me by simp
    show "n0 \<le> next_call (visit k s)" unfolding lead(5) l using nb by simp
  next
    fix k' n' u'
    assume a: "document (visit k s) k' = Some n'" "flagAdded n' \<noteq> None" "extracted n' = Some u'"
    show "u' \<in> processingUsernames (visit k s)"
    proof (cases "k' = k")
      case True
      with a lead(3) show ?thesis unfolding lead(5) l by auto
    next
      case False
      with a have "document s k' = Some n'" unfolding lead(5) l by simp
      from mk[OF this a(2,3)] show ?thesis unfolding lead(5) l by simp
    qed
  next
    fix v assume "v \<in> processingUsernames (visit k s)"
    then consider "v = u" | "v \<in> processingUsernames s" unfolding lead(5) l by auto
    then show "\<exists>cid\<ge>n0. (cid, v) \<in> set (outstanding (visit k s))"
    proof cases
      case 1
      then show ?thesis using r(2) nb by auto
    next
      case 2
      from rq[OF this] show ?thesis using r(2) by auto
    qed
  qed
  have 2: "name_of (visit k s) = name_of s"
    unfolding lead(5) using lead(1) by (auto simp: name_of_def fun_eq_iff l)
  have 3: "\<forall>v. name_of s k = Some v \<longrightarrow> v \<in> processingUsernames (visit k s)"
    unfolding lead(5) l using lead(1,3) by (simp add: name_of_def)
  have 4: "processingUsernames s \<subseteq> processingUsernames (visit k s)" unfolding lead(5) l by auto
  show ?thesis using 1 2 3 4 by simp
qed

lemma fold_visit_requeued:
  "requeued n0 s \<Longrightarrow>
   requeued n0 (fold visit xs s) \<and> processingUsernames s \<subseteq> processingUsernames (fold visit xs s) \<and>
   name_of (fold visit xs s) = name_of s \<and>
   (\<forall>k\<in>set xs. \<forall>u. name_of s k = Some u \<longrightarrow> u \<in> processingUsernames (fold visit xs s))"
proof (induction xs arbitrary: s)
  case Nil
  then show ?case by simp
next
  case (Cons x xs)
  note v = visit_requeued[OF Cons.prems, of x]
  note ih = Cons.IH[OF v[THEN conjunct1]]
  show ?case
  proof (intro conjI ballI allI impI)
    show "requeued n0 (fold visit (x # xs) s)" using ih by simp
    show "processingUsernames s \<subseteq> processingUsernames (fold visit (x # xs) s)" using ih v by auto
    show "name_of (fold visit (x # xs) s) = name_of s" using ih v by simp
  next
    fix k u assume k: "k \<in> set (x # xs)" and u: "name_of s k = Some u"
    show "u \<in> processingUsernames (fold visit (x # xs) s)"
    proof (cases "k = x")
      case True
      then have "u \<in> processingUsernames (visit x s)" using v u by simp
      then show ?thesis using ih by auto
    next
      case False
      then have "k \<in> set xs" using k by simp
      moreover have "name_of (visit x s) k = Some u" using v u by simp
      ultimately show ?thesis using ih by simp
    qed
  qed
qed

lemma microtasks_reachable: "microtasks (run cc es (init now stored enabled page)) = []"
  using reachable_inv1[of cc es now stored enabled page] by (simp add: inv1_def)

lemma step_cleared:
  assumes "cleared s" "passive_event e"
  shows "cleared (step cc e s)"
proof (cases e)
  case (PageInsert pos nid n)
  then show ?thesis using assms by (auto simp: cleared_def page_insert_def fresh_def)
next
  case (Toggle b)
  then show ?thesis using assms by (auto simp: cleared_def toggle_def removeAllFlags_def Let_def)
next
  case DrainWakes
  then show ?thesis using assms by (auto simp: cleared_def split: option.splits)
qed (use assms in \<open>auto simp: cleared_def\<close>)

lemma run_cleared: "cleared s \<Longrightarrow> list_all passive_event es \<Longrightarrow> cleared (run cc es s)"
proof (induction es arbitrary: s)
  case Nil
  then show ?case by (simp add: run_def)
next
  case (Cons e es)
  have "cleared (step cc e s)" using Cons.prems by (auto intro: step_cleared)
  then have "cleared (run cc es (step cc e s))" using Cons.prems by (auto intro: Cons.IH)
  then show ?case by (simp add: run_def)
qed

lemma cleared_requeued: "cleared s \<Longrightarrow> requeued (next_call s) s"
  by (auto simp: cleared_def requeued_def)

lemma scan_requeues:
  assumes rq: "requeued n0 s" and en: "extensionEnabled s"
    and h: "k \<in> set (scan_order s)" "document s k = Some m" "extracted m = Some u"
  shows "\<exists>cid\<ge>n0. (cid, u) \<in> set (outstanding (step cc Scan s))"
proof -
  have p: "processUsernames s = fold visit (elements s) s"
    using en by (simp add: processUsernames_def)
  have nm: "name_of s k = Some u" using h by (simp add: name_of_def)
  have "has_kind s ArticleUserName k \<or> has_kind s ProfileHeader k"
    using h by (cases "kind m") (simp_all add: has_kind_def)
  then have kin: "k \<in> set (elements s)" using h by (auto simp: elements_def)
  note f = fold_visit_requeued[OF rq, of "elements s"]
  have up: "u \<in> processingUsernames (processUsernames s)"
    unfolding p using f kin nm by blast
  have rq': "requeued n0 (processUsernames s)" unfolding p using f by simp
  then obtain cid where cid: "cid \<ge> n0" "(cid, u) \<in> set (outstanding (processUsernames s))"
    using up unfolding requeued_def by blast
  have "microtasks (processUsernames s) = []" using rq' by (simp add: requeued_def)
  then have "outstanding (step cc Scan s) = outstanding (processUsernames s)"
    by (simp add: run_microtasks_def outstanding_def)
  then show ?thesis using cid by auto
qed

text \<open>
  C8 (as amended). Right after the toggle message has disabled the extension, in every run,
  no element holds a flag, a placeholder or a marker, no flag is left elsewhere in the
  document, and the in-memory cache and \<open>processingUsernames\<close> are empty; the suspended
  calls, the queue and the requests of the bridge are as they were. If the extension is
  then enabled and the scan runs, and between the reset and that scan no response, no
  request timeout, no wake-up of a diverted call, no cache load and no other scan has
  come, then for every element of the document whose screen name can be extracted a
  resolution issued by that scan is outstanding.
\<close>

theorem disable_reset_and_requeue:
  "(document (run cc (es @ [Toggle False]) (init now stored enabled page)) nid = Some n \<longrightarrow>
      flags n = 0 \<and> shimmers n = [] \<and> flagAdded n = None) \<and>
   stray_flags (run cc (es @ [Toggle False]) (init now stored enabled page)) = 0 \<and>
   locationCache (run cc (es @ [Toggle False]) (init now stored enabled page)) = Map.empty \<and>
   processingUsernames (run cc (es @ [Toggle False]) (init now stored enabled page)) = {} \<and>
   calls (run cc (es @ [Toggle False]) (init now stored enabled page)) =
     calls (run cc es (init now stored enabled page)) \<and>
   bridge (run cc (es @ [Toggle False]) (init now stored enabled page)) =
     bridge (run cc es (init now stored enabled page)) \<and>
   requestQueue (run cc (es @ [Toggle False]) (init now stored enabled page)) =
     requestQueue (run cc es (init now stored enabled page)) \<and>
   (list_all passive_event mid \<and>
    extensionEnabled (run cc (es @ Toggle False # mid) (init now stored enabled page)) \<and>
    k \<in> set (scan_order (run cc (es @ Toggle False # mid) (init now stored enabled page))) \<and>
    document (run cc (es @ Toggle False # mid) (init now stored enabled page)) k = Some m \<and>
    extracted m = Some u \<longrightarrow>
      (\<exists>cid\<ge>next_call (run cc (es @ Toggle False # mid) (init now stored enabled page)).
         (cid, u) \<in> set (outstanding
            (run cc (es @ Toggle False # mid @ [Scan]) (init now stored enabled page)))))"
proof -
  let ?s = "run cc es (init now stored enabled page)"
  let ?t = "run cc (es @ [Toggle False]) (init now stored enabled page)"
  let ?v = "run cc (es @ Toggle False # mid) (init now stored enabled page)"
  let ?t' = "run cc (es @ Toggle False # mid @ [Scan]) (init now stored enabled page)"
  have t: "?t = toggle False ?s" by (simp add: run_snoc)
  have t0: "?v = run cc mid ?t" by (simp add: run_def)
  have t': "?t' = step cc Scan ?v" by (simp add: run_def)
  have a: "document ?t nid = Some n \<longrightarrow> flags n = 0 \<and> shimmers n = [] \<and> flagAdded n = None"
    unfolding t by (auto simp: toggle_def removeAllFlags_def Let_def)
  have b: "stray_flags ?t = 0" "locationCache ?t = Map.empty" "processingUsernames ?t = {}"
    unfolding t by (simp_all add: toggle_def removeAllFlags_def Let_def)
  have b': "calls ?t = calls ?s" "bridge ?t = bridge ?s" "requestQueue ?t = requestQueue ?s"
    unfolding t by (simp_all add: toggle_def removeAllFlags_def Let_def)
  have m: "microtasks ?t = []" by (rule microtasks_reachable)
  have cl: "cleared ?t"
    unfolding cleared_def using a b m
    by (auto simp: t toggle_def removeAllFlags_def Let_def)
  have c: "list_all passive_event mid \<and> extensionEnabled ?v \<and> k \<in> set (scan_order ?v) \<and>
      document ?v k = Some m \<and> extracted m = Some u \<longrightarrow>
      (\<exists>cid\<ge>next_call ?v. (cid, u) \<in> set (outstanding ?t'))"
  proof
    assume h: "list_all passive_event mid \<and> extensionEnabled ?v \<and> k \<in> set (scan_order ?v) \<and>
      document ?v k = Some m \<and> extracted m = Some u"
    have "cleared ?v" unfolding t0 using cl h by (auto intro: run_cleared)
    then have rq: "requeued (next_call ?v) ?v" by (rule cleared_requeued)
    show "\<exists>cid\<ge>next_call ?v. (cid, u) \<in> set (outstanding ?t')"
      unfolding t' using scan_requeues[OF rq] h by blast
  qed
  show ?thesis using a b b' c by blast
qed

text \<open>
  Three flags are rendered; disabling removes them with their markers, and the scan 500 ms
  after enabling requests alice, bob and carol again.
\<close>

theorem disable_reset_and_requeue_witness:
  "map (\<lambda>k. map_option flags (document (run demo_cc demo_flagged3 demo_init3) k)) [1, 2, 3] =
     [Some 1, Some 1, Some 1] \<and>
   map (\<lambda>k. map_option (\<lambda>n. (flags n, shimmers n, flagAdded n))
          (document (run demo_cc (demo_flagged3 @ [Toggle False]) demo_init3) k)) [1, 2, 3] =
     [Some (0, [], None), Some (0, [], None), Some (0, [], None)] \<and>
   outstanding
      (run demo_cc (demo_flagged3 @ Toggle False # [Tick 2000, Toggle True, Tick 500] @ [Scan]) demo_init3) =
     [(4, ''bob''), (5, ''carol''), (3, ''alice'')] \<and>
   stray_flags (run demo_cc (demo_flagged3 @ [Toggle False]) demo_init3) = 0 \<and>
   locationCache (run demo_cc (demo_flagged3 @ [Toggle False]) demo_init3) = Map.empty \<and>
   processingUsernames (run demo_cc (demo_flagged3 @ [Toggle False]) demo_init3) = {} \<and>
   calls (run demo_cc (demo_flagged3 @ [Toggle False]) demo_init3) =
     calls (run demo_cc demo_flagged3 demo_init3) \<and>
   bridge (run demo_cc (demo_flagged3 @ [Toggle False]) demo_init3) =
     bridge (run demo_cc demo_flagged3 demo_init3) \<and>
   requestQueue (run demo_cc (demo_flagged3 @ [Toggle False]) demo_init3) =
     requestQueue (run demo_cc demo_flagged3 demo_init3) \<and>
   (\<exists>cid\<ge>next_call (run demo_cc (demo_flagged3 @ Toggle False # [Tick 2000, Toggle True, Tick 500]) demo_init3).
      (cid, ''carol'') \<in> set (outstanding
         (run demo_cc (demo_flagged3 @ Toggle False # [Tick 2000, Toggle True, Tick 500] @ [Scan])
            demo_init3)))"
proof -
  have a: "map (\<lambda>k. map_option flags (document (run demo_cc demo_flagged3 demo_init3) k)) [1, 2, 3] =
     [Some 1, Some 1, Some 1]" by code_simp
  have b: "map (\<lambda>k. map_option (\<lambda>n. (flags n, shimmers n, flagAdded n))
          (document (run demo_cc (demo_flagged3 @ [Toggle False]) demo_init3) k)) [1, 2, 3] =
     [Some (0, [], None), Some (0, [], None), Some (0, [], None)]" by code_simp
  have c: "outstanding
      (run demo_cc (demo_flagged3 @ Toggle False # [Tick 2000, Toggle True, Tick 500] @ [Scan]) demo_init3) =
     [(4, ''bob''), (5, ''carol''), (3, ''alice'')]" by code_simp
  have h: "list_all passive_event [Tick 2000, Toggle True, Tick 500] \<and>
     extensionEnabled (run demo_cc (demo_flagged3 @ Toggle False # [Tick 2000, Toggle True, Tick 500]) demo_init3) \<and>
     3 \<in> set (scan_order (run demo_cc (demo_flagged3 @ Toggle False # [Tick 2000, Toggle True, Tick 500]) demo_init3)) \<and>
     document (run demo_cc (demo_flagged3 @ Toggle False # [Tick 2000, Toggle True, Tick 500]) demo_init3) 3 =
       Some (demo_node ''carol'') \<and>
     extracted (demo_node ''carol'') = Some ''carol''"
    by code_simp
  note t = disable_reset_and_requeue[of demo_cc demo_flagged3 1000 Map.empty True
      "[(1, demo_node ''alice''), (2, demo_node ''bob''), (3, demo_node ''carol'')]"
      1 "demo_node ''alice''" "[Tick 2000, Toggle True, Tick 500]" 3 "demo_node ''carol''" "''carol''",
      folded demo_init3_def]
  note t2 = t[THEN conjunct2]
  note t3 = t2[THEN conjunct2]
  note t4 = t3[THEN conjunct2]
  note t5 = t4[THEN conjunct2]
  note t6 = t5[THEN conjunct2]
  note t7 = t6[THEN conjunct2]
  show ?thesis
    by (intro conjI a b c t2[THEN conjunct1] t3[THEN conjunct1] t4[THEN conjunct1]
        t5[THEN conjunct1] t6[THEN conjunct1] t7[THEN conjunct1]
        t7[THEN conjunct2, THEN mp, OF h])
qed

text \<open>
  C8 as stated fails when a response arrives while the extension is disabled. The reset
  leaves the request for alice in flight; her response fills the cache again, and the call
  that awaited it inserts the flag and marks her element \<open>true\<close>. The scan after enabling
  passes over the element: no resolution is outstanding, and the only call and the only
  request ever made are those from before the reset.
\<close>

theorem late_response_prevents_requeue:
  "map_option (\<lambda>n. (flags n, shimmers n, flagAdded n))
     (document (run demo_cc [Scan, Toggle False] demo_init) 1) = Some (0, [], None) \<and>
   locationCache (run demo_cc [Scan, Toggle False] demo_init) ''alice'' = None \<and>
   map snd (outstanding (run demo_cc [Scan, Toggle False] demo_init)) = [''alice''] \<and>
   extensionEnabled (run demo_cc
      [Scan, Toggle False, Response 0 (Some ''France'') False, Toggle True, Tick 500, Scan] demo_init) \<and>
   map_option extracted (document (run demo_cc
      [Scan, Toggle False, Response 0 (Some ''France'') False, Toggle True, Tick 500, Scan] demo_init) 1) =
     Some (Some ''alice'') \<and>
   outstanding (run demo_cc
      [Scan, Toggle False, Response 0 (Some ''France'') False, Toggle True, Tick 500, Scan] demo_init) = [] \<and>
   map req_id (bridge (run demo_cc
      [Scan, Toggle False, Response 0 (Some ''France'') False, Toggle True, Tick 500, Scan] demo_init)) = [0] \<and>
   next_call (run demo_cc
      [Scan, Toggle False, Response 0 (Some ''France'') False, Toggle True, Tick 500, Scan] demo_init) = 1 \<and>
   locationCache (run demo_cc
      [Scan, Toggle False, Response 0 (Some ''France'') False, Toggle True, Tick 500, Scan] demo_init)
      ''alice'' = Some (Some ''France'')"
  by code_simp

text \<open>
  C9. Disabling does not keep the document free of flags. The element of alice is being
  annotated and its call waits for the location when the toggle message disables the
  extension: the reset leaves the element without marker and without flag. The response
  then arrives, the call continues without looking at \<open>extensionEnabled\<close>, inserts its
  flag image and sets the marker to \<open>true\<close>, while the extension is still disabled.
\<close>

theorem late_flag_after_disable:
  "let s1 = run demo_cc [Scan, Toggle False] demo_init;
       s2 = step demo_cc (Response 0 (Some ''France'') False) s1
   in \<not> extensionEnabled s1 \<and> calls s1 0 = Some (Awaiting 1 ''alice'' True) \<and>
      map_option flags (document s1 1) = Some 0 \<and>
      map_option flagAdded (document s1 1) = Some None \<and>
      \<not> extensionEnabled s2 \<and>
      map_option flags (document s2 1) = Some 1 \<and>
      map_option flagAdded (document s2 1) = Some (Some FlagTrue)"
  by code_simp

subsection \<open>Location cache\<close>







end
